theory Spec2Isabelle
  imports Main "HOL-Library.Word"
begin

section \<open>Identifiers and the identity map (Persisted.ts, MakePersisted and KeyValued)\<close>

text \<open>
  The values an \<^verbatim>\<open>id\<close> argument can take. Numbers are modelled as integers, with
  \<^verbatim>\<open>NaN\<close> as a constructor of its own. Equality of this datatype is the key equality
  of a JavaScript \<^verbatim>\<open>Map\<close> (SameValueZero): the number 1 and the string "1" differ,
  \<^verbatim>\<open>NaN\<close> equals itself.
\<close>

datatype js_id =
    IdUndefined
  | IdNull
  | IdBool bool
  | IdNumber int
  | IdNaN
  | IdString string

text \<open>\<^verbatim>\<open>typeof id === 'string'\<close>\<close>

fun is_string :: "js_id \<Rightarrow> bool" where
  "is_string (IdString s) = True"
| "is_string _ = False"

text \<open>
  \<^verbatim>\<open>id > 0\<close>. On a string the comparison converts the string with the language's
  \<^verbatim>\<open>ToNumber\<close>, a floating-point conversion of the runtime; the model takes its outcome
  as the parameter \<open>sgt\<close>: \<open>sgt s\<close> holds when the string \<open>s\<close> converts to a number
  greater than zero. \<^verbatim>\<open>null\<close> converts to 0, \<^verbatim>\<open>undefined\<close> to \<^verbatim>\<open>NaN\<close>,
  \<^verbatim>\<open>true\<close> to 1 and \<^verbatim>\<open>false\<close> to 0.
\<close>

fun gt_zero :: "(string \<Rightarrow> bool) \<Rightarrow> js_id \<Rightarrow> bool" where
  "gt_zero sgt IdUndefined = False"
| "gt_zero sgt IdNull = False"
| "gt_zero sgt (IdBool b) = b"
| "gt_zero sgt (IdNumber n) = (0 < n)"
| "gt_zero sgt IdNaN = False"
| "gt_zero sgt (IdString s) = sgt s"

text \<open>\<^verbatim>\<open>id == null\<close> (loose equality: true of \<^verbatim>\<open>null\<close> and \<^verbatim>\<open>undefined\<close> only)\<close>

fun eq_null :: "js_id \<Rightarrow> bool" where
  "eq_null IdUndefined = True"
| "eq_null IdNull = True"
| "eq_null _ = False"

text \<open>\<^verbatim>\<open>!id\<close>: the falsy values\<close>

fun falsy :: "js_id \<Rightarrow> bool" where
  "falsy IdUndefined = True"
| "falsy IdNull = True"
| "falsy (IdBool b) = (\<not> b)"
| "falsy (IdNumber n) = (n = 0)"
| "falsy IdNaN = True"
| "falsy (IdString s) = (s = [])"

datatype js_error =
    Error_bad_id            \<comment> \<open>\<^verbatim>\<open>Error('Id should be a number or non-numeric string: ...')\<close>\<close>
  | TypeError_no_id         \<comment> \<open>\<^verbatim>\<open>TypeError('No id provided')\<close>\<close>
  | TypeError_abstract      \<comment> \<open>\<^verbatim>\<open>TypeError('Can not directly instantiate abstract Persisted class')\<close>\<close>

datatype ready_state = Loading_local_data | Up_to_date | Invalidated | No_local_data

text \<open>
  The in-memory fields of an entity that the modelled methods read or write. An absent
  (\<^verbatim>\<open>undefined\<close> or \<^verbatim>\<open>null\<close>) field is \<open>None\<close>; \<open>'v\<close> is the type of deserialized values.
\<close>

record 'v entity =
  inst_id :: js_id
  readyState :: "ready_state option"
  asJSON :: "string option"
  cachedValue :: "'v option"
  cachedVersion :: "int option"
  entity_version :: "int option"

text \<open>What \<^verbatim>\<open>for\<close> and the constructor read of the class they are called on.\<close>

record class_descr =
  is_Persisted :: bool              \<comment> \<open>\<^verbatim>\<open>this.constructor === Persisted\<close>\<close>
  checkSourceVersions :: bool       \<comment> \<open>the getter, \<^verbatim>\<open>false\<close> unless a subclass overrides it\<close>
  transformVersion :: "int option"  \<comment> \<open>set by \<^verbatim>\<open>register\<close> from the module's mtime\<close>
  syncVersion :: int                \<comment> \<open>\<^verbatim>\<open>Persisted.syncVersion\<close>\<close>
  updateWithPrevious :: bool

text \<open>
  The per-class state: \<^verbatim>\<open>instancesById\<close> (a \<^verbatim>\<open>Map\<close> or a \<^verbatim>\<open>WeakValueMap\<close>, here a
  map from ids to object references), the objects themselves, the next free reference,
  and the two fields the version block of \<^verbatim>\<open>for\<close> writes.
\<close>

record 'v class_state =
  instancesById :: "js_id \<rightharpoonup> nat"
  objects :: "nat \<rightharpoonup> 'v entity"
  next_ref :: nat
  transform_hasVersion :: bool
  prototype_version :: "int option"

text \<open>The constructor of \<^verbatim>\<open>MakePersisted\<close> (lines 50-61).\<close>

definition construct :: "class_descr \<Rightarrow> js_id \<Rightarrow> js_error + 'v entity" where
  "construct C i =
     (if eq_null i then Inl TypeError_no_id
      else if is_Persisted C then Inl TypeError_abstract
      else Inr \<lparr> inst_id = i,
                 readyState = (if checkSourceVersions C then Some Invalidated else None),
                 asJSON = None, cachedValue = None, cachedVersion = None, entity_version = None \<rparr>)"

text \<open>\<^verbatim>\<open>transformVersion\<close> is truthy: present and not 0.\<close>

definition truthy_num :: "int option \<Rightarrow> bool" where
  "truthy_num v = (case v of None \<Rightarrow> False | Some n \<Rightarrow> n \<noteq> 0)"

text \<open>
  \<^verbatim>\<open>static for(id)\<close> (lines 98-123). A throw leaves the state as it was; otherwise the
  result is the reference of the instance and the state after the call.
\<close>

definition for_id ::
    "(string \<Rightarrow> bool) \<Rightarrow> class_descr \<Rightarrow> js_id \<Rightarrow> 'v class_state
      \<Rightarrow> js_error + (nat \<times> 'v class_state)" where
  "for_id sgt C i s =
     (if gt_zero sgt i \<and> is_string i \<or> eq_null i then Inl Error_bad_id
      else case instancesById s i of
        Some r \<Rightarrow> Inr (r, s)
      | None \<Rightarrow>
          (case construct C i of
             Inl e \<Rightarrow> Inl e
           | Inr inst \<Rightarrow>
               let r = next_ref s;
                   s1 = s\<lparr> objects := (objects s)(r \<mapsto> inst), next_ref := Suc r \<rparr>;
                   s2 = (if \<not> transform_hasVersion s1 \<and> truthy_num (transformVersion C)
                         then s1\<lparr> transform_hasVersion := True,
                                  prototype_version := Some (syncVersion C) \<rparr>
                         else s1)
               in Inr (r, s2\<lparr> instancesById := (instancesById s2)(i \<mapsto> r) \<rparr>)))"

text \<open>
  \<^verbatim>\<open>static remove(id, event?)\<close> (lines 490-503): the guard, the lookup through
  \<^verbatim>\<open>for\<close>, the write \<^verbatim>\<open>this.dbPut(id)\<close> (returned as the request: key, no value, no
  version) and the removal from \<^verbatim>\<open>instancesById\<close>. The events it publishes are not
  modelled.
\<close>

type_synonym write_request = "js_id \<times> string option \<times> int option"

definition remove_id ::
    "(string \<Rightarrow> bool) \<Rightarrow> class_descr \<Rightarrow> js_id \<Rightarrow> 'v class_state
      \<Rightarrow> js_error + (nat \<times> write_request \<times> 'v class_state)" where
  "remove_id sgt C i s =
     (if gt_zero sgt i \<and> is_string i \<or> falsy i then Inl Error_bad_id
      else case for_id sgt C i s of
        Inl e \<Rightarrow> Inl e
      | Inr (r, s1) \<Rightarrow>
          Inr (r, (i, None, None), s1\<lparr> instancesById := (instancesById s1)(i := None) \<rparr>))"

text \<open>
  Removal of an entry by the garbage collector (weak map) is the same update of
  \<^verbatim>\<open>instancesById\<close>.
\<close>

definition evict :: "js_id \<Rightarrow> 'v class_state \<Rightarrow> 'v class_state" where
  "evict i s = s\<lparr> instancesById := (instancesById s)(i := None) \<rparr>"

text \<open>
  Well-formed class state: every registered reference points to an object that carries
  the id it is registered under, and every allocated reference is below \<open>next_ref\<close>.
\<close>

definition wf_class :: "'v class_state \<Rightarrow> bool" where
  "wf_class s \<longleftrightarrow>
     (\<forall>i r. instancesById s i = Some r \<longrightarrow>
        (\<exists>inst. objects s r = Some inst \<and> inst_id inst = i)) \<and>
     (\<forall>r. r \<in> dom (objects s) \<longrightarrow> r < next_ref s)"

definition empty_class :: "'v class_state" where
  "empty_class = \<lparr> instancesById = Map.empty, objects = Map.empty, next_ref = 0,
                   transform_hasVersion = False, prototype_version = None \<rparr>"

definition plain_class :: class_descr where
  "plain_class = \<lparr> is_Persisted = False, checkSourceVersions = False,
                   transformVersion = None, syncVersion = 10, updateWithPrevious = False \<rparr>"

text \<open>A stand-in for the string comparison in witnesses: all-digit strings with a non-zero digit.\<close>

definition digits_positive :: "string \<Rightarrow> bool" where
  "digits_positive s \<longleftrightarrow>
     s \<noteq> [] \<and> list_all (\<lambda>c. c \<in> set ''0123456789'') s \<and> list_ex (\<lambda>c. c \<noteq> CHR ''0'') s"

text \<open>No two registered (live) instances carry the same id.\<close>

definition no_shared_id :: "'v class_state \<Rightarrow> bool" where
  "no_shared_id s \<longleftrightarrow>
     (\<forall>r1 r2 e1 e2. r1 \<in> ran (instancesById s) \<and> r2 \<in> ran (instancesById s)
        \<and> objects s r1 = Some e1 \<and> objects s r2 = Some e2 \<and> inst_id e1 = inst_id e2
        \<longrightarrow> r1 = r2)"

text \<open>The state after the first \<^verbatim>\<open>for(7)\<close> on a fresh class.\<close>

definition class_with_7 :: "unit class_state" where
  "class_with_7 =
     \<lparr> instancesById = [IdNumber 7 \<mapsto> 0],
       objects = [0 \<mapsto> \<lparr> inst_id = IdNumber 7, readyState = None, asJSON = None,
                          cachedValue = None, cachedVersion = None, entity_version = None \<rparr>],
       next_ref = Suc 0, transform_hasVersion = False, prototype_version = None \<rparr>"

section \<open>The permission proxy (Persisted.ts, secureAccess)\<close>

text \<open>
  \<^verbatim>\<open>Class.allow(...permissions)\<close> returns \<^verbatim>\<open>new Proxy(this, handler)\<close>, and the
  \<^verbatim>\<open>for\<close> override wraps each instance in a proxy with the same handler. An object is
  therefore either a plain object (\<open>Raw\<close>, with its address) or a proxy around a target;
  the proxy remembers the class \<^verbatim>\<open>allow\<close> was called on (the closure variable
  \<^verbatim>\<open>Class\<close>).
\<close>

datatype method_name = M_for | M_stopNotifies | M_isChecked | M_other string

datatype obj = Raw nat | Proxied nat obj

text \<open>
  Function values: a method of a plain object as found on the object, an entry of
  \<^verbatim>\<open>methodOverrides\<close> bound to a target (\<^verbatim>\<open>methodOverrides[name].bind(target)\<close>), or
  the permission-checking wrapper the handler builds around a function-valued property.
\<close>

datatype fn =
    Own obj method_name
  | Override method_name obj
  | Checked fn obj method_name

text \<open>The keys of \<^verbatim>\<open>methodOverrides\<close>: \<^verbatim>\<open>for\<close>, \<^verbatim>\<open>stopNotifies\<close>, \<^verbatim>\<open>isChecked\<close>.\<close>

definition methodOverrides :: "method_name \<Rightarrow> bool" where
  "methodOverrides name \<longleftrightarrow> name = M_for \<or> name = M_stopNotifies \<or> name = M_isChecked"

text \<open>
  Reading the property \<open>name\<close> of an object. On a plain object the handler is not
  involved. On a proxy, \<^verbatim>\<open>handler.get(target, name)\<close> (lines 896-931) runs: it reads
  \<^verbatim>\<open>target[name]\<close>, returns the override bound to \<^verbatim>\<open>target\<close> when there is one, and
  otherwise the permission-checking wrapper.
\<close>

fun get_prop :: "obj \<Rightarrow> method_name \<Rightarrow> fn" where
  "get_prop (Raw a) name = Own (Raw a) name"
| "get_prop (Proxied cls target) name =
     (let value = get_prop target name
      in if methodOverrides name then Override name target
         else Checked value target name)"

datatype result = Result_of obj method_name | Proxy_of nat result | True_value

datatype outcome = Returned result | Thrown_AccessError

datatype 'a event =
    Enter_override method_name obj     \<comment> \<open>an override's body starts, with this \<^verbatim>\<open>this\<close>\<close>
  | Call_own obj method_name 'a        \<comment> \<open>a plain object's own method runs on this argument\<close>
  | Check_permissions obj method_name  \<comment> \<open>\<^verbatim>\<open>secureAccess.checkPermissions\<close> is consulted\<close>

text \<open>
  The method call \<^verbatim>\<open>recv.name(a)\<close> (\<open>invoke\<close>) and the application of a function
  value (\<open>apply_fn\<close>). Whether an override ends up calling itself is what is in question,
  so both take fuel: \<open>None\<close> means the call did not return within it. The result is the
  trace of what ran, and how the call ended.

  The override \<^verbatim>\<open>stopNotifies(target) { return this.stopNotifies(target) }\<close> reads
  \<^verbatim>\<open>stopNotifies\<close> from its \<^verbatim>\<open>this\<close>, which \<^verbatim>\<open>bind\<close> fixed to the handler's
  \<^verbatim>\<open>target\<close>. The override \<^verbatim>\<open>for(id)\<close> calls \<^verbatim>\<open>Class.for(id)\<close> and wraps the
  result; \<^verbatim>\<open>isChecked\<close> returns \<^verbatim>\<open>true\<close>. \<open>permitted\<close> is the outcome of
  \<^verbatim>\<open>checkPermissions(permissions, target, name, args) === true\<close>.
\<close>

fun invoke :: "(obj \<Rightarrow> method_name \<Rightarrow> bool) \<Rightarrow> nat \<Rightarrow> obj \<Rightarrow> method_name \<Rightarrow> 'a
     \<Rightarrow> ('a event list \<times> outcome) option"
and apply_fn :: "(obj \<Rightarrow> method_name \<Rightarrow> bool) \<Rightarrow> nat \<Rightarrow> nat \<Rightarrow> fn \<Rightarrow> 'a
     \<Rightarrow> ('a event list \<times> outcome) option" where
  "invoke permitted 0 recv name a = None"
| "invoke permitted (Suc n) (Raw r) name a =
     apply_fn permitted n 0 (get_prop (Raw r) name) a"
| "invoke permitted (Suc n) (Proxied cls t) name a =
     apply_fn permitted n cls (get_prop (Proxied cls t) name) a"
| "apply_fn permitted n cls (Own this name) a =
     Some ([Call_own this name a], Returned (Result_of this name))"
| "apply_fn permitted n cls (Override name this) a =
     (if name = M_stopNotifies then
        (case invoke permitted n this M_stopNotifies a of
           None \<Rightarrow> None
         | Some (tr, out) \<Rightarrow> Some (Enter_override M_stopNotifies this # tr, out))
      else if name = M_for then
        (case invoke permitted n (Raw cls) M_for a of
           None \<Rightarrow> None
         | Some (tr, Returned target) \<Rightarrow>
             Some (Enter_override M_for this # tr, Returned (Proxy_of cls target))
         | Some (tr, Thrown_AccessError) \<Rightarrow>
             Some (Enter_override M_for this # tr, Thrown_AccessError))
      else Some ([Enter_override name this], Returned True_value))"
| "apply_fn permitted n cls (Checked value target name) a =
     (if permitted target name
      then (case apply_fn permitted n cls value a of
              None \<Rightarrow> None
            | Some (tr, out) \<Rightarrow> Some (Check_permissions target name # tr, out))
      else Some ([Check_permissions target name], Thrown_AccessError))"

text \<open>The plain object at the bottom of a proxy, the number of proxies around it, and
  the overrides entered on the way down.\<close>

fun raw_target :: "obj \<Rightarrow> obj" where
  "raw_target (Raw r) = Raw r"
| "raw_target (Proxied cls t) = raw_target t"

fun proxy_depth :: "obj \<Rightarrow> nat" where
  "proxy_depth (Raw r) = 0"
| "proxy_depth (Proxied cls t) = Suc (proxy_depth t)"

fun override_chain :: "obj \<Rightarrow> 'a event list" where
  "override_chain (Raw r) = []"
| "override_chain (Proxied cls t) = Enter_override M_stopNotifies t # override_chain t"

section \<open>The incremental indexer (Index.ts)\<close>

type_synonym buffer = "8 word list"

definition SEPARATOR_BYTE :: buffer where
  "SEPARATOR_BYTE = [30]"

definition LAST_INDEXED_VERSION_KEY :: buffer where
  "LAST_INDEXED_VERSION_KEY = [1, 2]"

definition DEFAULT_INDEXING_CONCURRENCY :: nat where
  "DEFAULT_INDEXING_CONCURRENCY = 15"

text \<open>Values stored in a table: strings (rows, JSON) and numbers (the watermarks).\<close>

datatype db_value = Str string | Num int

text \<open>
  The operations of a batch handed to the key-value engine: \<^verbatim>\<open>{type: 'put', key, value}\<close>,
  \<^verbatim>\<open>{type: 'del', key}\<close> (the indexer) and \<^verbatim>\<open>{type: 'remove', key}\<close> (the write batcher).
\<close>

datatype operation = Put buffer db_value | Del buffer | Remove buffer

text \<open>
  The entries of a JavaScript \<^verbatim>\<open>Map\<close>, in insertion order, each key once:
  \<^verbatim>\<open>set\<close> on a key that is present replaces its value where it stands, on a new key it
  appends; \<^verbatim>\<open>get\<close> is \<open>map_of\<close>.
\<close>

fun map_set :: "'a \<Rightarrow> 'b \<Rightarrow> ('a \<times> 'b) list \<Rightarrow> ('a \<times> 'b) list" where
  "map_set k v [] = [(k, v)]"
| "map_set k v (e # m) = (if fst e = k then (k, v) # m else e # map_set k v m)"

definition map_delete :: "'a \<Rightarrow> ('a \<times> 'b) list \<Rightarrow> ('a \<times> 'b) list" where
  "map_delete k m = filter (\<lambda>e. fst e \<noteq> k) m"

text \<open>
  What \<^verbatim>\<open>indexBy\<close> may return: nothing, \<^verbatim>\<open>null\<close> (the default implementation), one
  \<^verbatim>\<open>{key, value}\<close> object, one primitive key, or an array whose elements are such objects,
  primitive keys or \<^verbatim>\<open>null\<close>. \<open>'k\<close> is the type of primitive keys and ids, \<open>'v\<close> of
  the values attached to keys, \<open>'d\<close> of the source's data.
\<close>

datatype ('k, 'v) entry = Object_entry 'k "'v option" | Primitive_entry 'k | Null_entry

datatype ('k, 'v) indexed =
    Undefined_result
  | Null_result
  | Single_object 'k "'v option"
  | Single_primitive 'k
  | Array_result "('k, 'v) entry list"

text \<open>
  The functions the indexer is given: \<^verbatim>\<open>toBufferKey\<close> of the ordered-binary package,
  \<^verbatim>\<open>JSON.stringify\<close>, the index's \<^verbatim>\<open>indexBy\<close>, and \<^verbatim>\<open>Source.MAX_CONCURRENCY\<close>
  (0 when unset).
\<close>

record ('k, 'v, 'd) index_env =
  toBufferKey :: "'k \<Rightarrow> buffer"
  stringify :: "'v \<Rightarrow> string"
  indexBy :: "'d \<Rightarrow> ('k, 'v) indexed"
  MAX_CONCURRENCY :: nat

text \<open>\<^verbatim>\<open>IndexRequest\<close>. A missing version is the falsy 0.\<close>

record ('d, 's) index_request =
  previousState :: "'d option"
  deleted :: bool
  sources :: "'s set option"
  request_version :: int

text \<open>
  The state of one index: the module-level \<^verbatim>\<open>operations\<close> (with its \<^verbatim>\<open>byteCount\<close>),
  \<^verbatim>\<open>lastIndexedVersion\<close> and \<^verbatim>\<open>updatedIndexEntries\<close>, the static \<^verbatim>\<open>queue\<close>, a
  \<^verbatim>\<open>Map\<close> (its entries, and the own properties of the object, which is what bracket syntax
  reads), \<^verbatim>\<open>queuedIndexedProgress\<close>, \<^verbatim>\<open>cancelIndexing\<close> and the index table.
\<close>

record ('k, 'd, 's) index_state =
  operations :: "operation list"
  byteCount :: nat
  lastIndexedVersion :: int
  updatedIndexEntries :: "('k \<times> 's set) list"
  queue :: "('k \<times> ('d, 's) index_request) list"
  queue_props :: "(string \<times> ('d, 's) index_request) list"
  queuedIndexedProgress :: "int option"
  cancelIndexing :: bool
  index_db :: "buffer \<rightharpoonup> db_value"

text \<open>\<^verbatim>\<open>addUpdatedIndexEntry(key, sources)\<close> (lines 34-42)\<close>

definition addUpdatedIndexEntry ::
    "'k \<Rightarrow> 's set option \<Rightarrow> ('k \<times> 's set) list \<Rightarrow> ('k \<times> 's set) list" where
  "addUpdatedIndexEntry key srcs m =
     (let entry = (case map_of m key of Some e \<Rightarrow> e | None \<Rightarrow> {})
      in map_set key (case srcs of None \<Rightarrow> entry | Some S \<Rightarrow> entry \<union> S) m)"

text \<open>
  Both results of \<^verbatim>\<open>indexBy\<close> are brought to a list the same way: an array is taken as
  it is, \<^verbatim>\<open>undefined\<close> is no entry, anything else (also \<^verbatim>\<open>null\<close>, whose \<^verbatim>\<open>typeof\<close> is
  \<^verbatim>\<open>'object'\<close>) is a list of one. For the previous state a single primitive is stored
  directly with \<^verbatim>\<open>toRemove.set(previousEntries, '')\<close>, which is what the loop does with a
  primitive entry.
\<close>

fun as_entries :: "('k, 'v) indexed \<Rightarrow> ('k, 'v) entry list" where
  "as_entries Undefined_result = []"
| "as_entries Null_result = [Null_entry]"
| "as_entries (Single_object k v) = [Object_entry k v]"
| "as_entries (Single_primitive k) = [Primitive_entry k]"
| "as_entries (Array_result es) = es"

text \<open>
  \<^verbatim>\<open>typeof entry === 'object' ? entry.key : entry\<close> and \<^verbatim>\<open>entry.value\<close>; reading a
  property of \<^verbatim>\<open>null\<close> throws a TypeError (\<open>None\<close>). A primitive has no \<^verbatim>\<open>value\<close>.
\<close>

fun entry_parts :: "('k, 'v) entry \<Rightarrow> ('k \<times> 'v option) option" where
  "entry_parts (Object_entry k v) = Some (k, v)"
| "entry_parts (Primitive_entry k) = Some (k, None)"
| "entry_parts Null_entry = None"

text \<open>\<^verbatim>\<open>value === undefined ? '' : JSON.stringify(value)\<close>\<close>

definition serialized :: "('v \<Rightarrow> string) \<Rightarrow> 'v option \<Rightarrow> string" where
  "serialized js v = (case v of None \<Rightarrow> [] | Some x \<Rightarrow> js x)"

text \<open>The loop of lines 66-70 filling \<^verbatim>\<open>toRemove\<close>; \<open>None\<close> when it throws.\<close>

fun collect_previous ::
    "('v \<Rightarrow> string) \<Rightarrow> ('k, 'v) entry list \<Rightarrow> ('k \<times> string) list
      \<Rightarrow> ('k \<times> string) list option" where
  "collect_previous js [] toRemove = Some toRemove"
| "collect_previous js (e # es) toRemove =
     (case entry_parts e of
        None \<Rightarrow> None
      | Some (key, v) \<Rightarrow> collect_previous js es (map_set key (serialized js v) toRemove))"

text \<open>\<^verbatim>\<open>Buffer.concat([toBufferKey(key), SEPARATOR_BYTE, toBufferKey(id)])\<close>\<close>

definition fullKey :: "('k, 'v, 'd) index_env \<Rightarrow> 'k \<Rightarrow> 'k \<Rightarrow> buffer" where
  "fullKey env key i = toBufferKey env key @ SEPARATOR_BYTE @ toBufferKey env i"

text \<open>
  The loop of lines 94-112 over the current entries. It returns \<open>Inr\<close> with what is
  left of \<^verbatim>\<open>toRemove\<close> and the state, or \<open>Inl\<close> with the state at the moment an entry
  made it throw (the operations pushed before stay in the shared buffer).
\<close>

fun index_entries ::
    "('k, 'v, 'd) index_env \<Rightarrow> 'k \<Rightarrow> 's set option \<Rightarrow> ('k, 'v) entry list
      \<Rightarrow> ('k \<times> string) list \<Rightarrow> ('k, 'd, 's) index_state
      \<Rightarrow> ('k, 'd, 's) index_state + (('k \<times> string) list \<times> ('k, 'd, 's) index_state)" where
  "index_entries env i srcs [] toRemove s = Inr (toRemove, s)"
| "index_entries env i srcs (e # es) toRemove s =
     (case entry_parts e of
        None \<Rightarrow> Inl s
      | Some (key, v) \<Rightarrow>
          let removedValue = map_of toRemove key;
              value = serialized (stringify env) v;
              toRemove' = (if removedValue \<noteq> None then map_delete key toRemove else toRemove);
              s' = (if removedValue = None \<or> Some value \<noteq> removedValue
                    then s\<lparr> operations := operations s @ [Put (fullKey env key i) (Str value)],
                            byteCount := byteCount s + length value + length (fullKey env key i),
                            updatedIndexEntries :=
                              addUpdatedIndexEntry key srcs (updatedIndexEntries s) \<rparr>
                    else s)
          in index_entries env i srcs es toRemove' s')"

text \<open>The loop of lines 114-120: one \<^verbatim>\<open>del\<close> for each key left in \<^verbatim>\<open>toRemove\<close>.\<close>

fun emit_dels ::
    "('k, 'v, 'd) index_env \<Rightarrow> 'k \<Rightarrow> 's set option \<Rightarrow> ('k \<times> string) list
      \<Rightarrow> ('k, 'd, 's) index_state \<Rightarrow> ('k, 'd, 's) index_state" where
  "emit_dels env i srcs [] s = s"
| "emit_dels env i srcs (e # toRemove) s =
     emit_dels env i srcs toRemove
       (s\<lparr> operations := operations s @ [Del (fullKey env (fst e) i)],
           updatedIndexEntries := addUpdatedIndexEntry (fst e) srcs (updatedIndexEntries s) \<rparr>)"

text \<open>
  What \<^verbatim>\<open>indexEntry\<close> gets from the source: whether \<^verbatim>\<open>Source.for(id)\<close> throws, and the
  outcomes of the first \<^verbatim>\<open>entity.valueOf(INDEXING_MODE)\<close> and of the retry (\<open>Inl\<close> a
  failure, \<open>Inr\<close> the data, possibly \<^verbatim>\<open>undefined\<close>).
\<close>

record 'd source_read =
  for_throws :: bool
  first_read :: "unit + 'd option"
  retry_read :: "unit + 'd option"

definition load_data :: "'d source_read \<Rightarrow> 'd option" where
  "load_data rd =
     (case first_read rd of
        Inr data \<Rightarrow> data
      | Inl _ \<Rightarrow> (case retry_read rd of Inr data \<Rightarrow> data | Inl _ \<Rightarrow> None))"

text \<open>The entries of the previous state and of the current value, as \<^verbatim>\<open>indexEntry\<close>
  computes them.\<close>

definition previous_entries ::
    "('k, 'v, 'd) index_env \<Rightarrow> ('d, 's) index_request \<Rightarrow> ('k, 'v) entry list" where
  "previous_entries env rq =
     (case previousState rq of None \<Rightarrow> [] | Some p \<Rightarrow> as_entries (indexBy env p))"

definition current_entries ::
    "('k, 'v, 'd) index_env \<Rightarrow> 'd option \<Rightarrow> ('k, 'v) entry list" where
  "current_entries env data =
     (case data of None \<Rightarrow> [] | Some d \<Rightarrow> as_entries (indexBy env d))"

text \<open>
  \<^verbatim>\<open>indexEntry(id, indexRequest)\<close> (lines 51-128). Whatever is thrown inside is caught
  and logged: the state then stays as it was at the throw, and \<^verbatim>\<open>lastIndexedVersion\<close> is
  not advanced.
\<close>

definition indexEntry ::
    "('k, 'v, 'd) index_env \<Rightarrow> 'k \<Rightarrow> ('d, 's) index_request \<Rightarrow> 'd source_read
      \<Rightarrow> ('k, 'd, 's) index_state \<Rightarrow> ('k, 'd, 's) index_state" where
  "indexEntry env i rq rd s =
     (if for_throws rd then s
      else case collect_previous (stringify env) (previous_entries env rq) [] of
        None \<Rightarrow> s
      | Some toRemove \<Rightarrow>
          (case (if \<not> deleted rq
                 then index_entries env i (sources rq)
                        (current_entries env (load_data rd)) toRemove s
                 else Inr (toRemove, s)) of
             Inl s' \<Rightarrow> s'
           | Inr (toRemove', s') \<Rightarrow>
               let s'' = emit_dels env i (sources rq) toRemove' s'
               in if request_version rq \<noteq> 0
                  then s''\<lparr> lastIndexedVersion :=
                              max (request_version rq) (lastIndexedVersion s'') \<rparr>
                  else s''))"

subsection \<open>The difference of two index results, in the words of the specification\<close>

text \<open>The \<open>(key, serialized value)\<close> pairs of a list of entries.\<close>

definition entry_pairs :: "('v \<Rightarrow> string) \<Rightarrow> ('k, 'v) entry list \<Rightarrow> ('k \<times> string) list" where
  "entry_pairs js es =
     concat (map (\<lambda>e. case entry_parts e of None \<Rightarrow> [] | Some (k, v) \<Rightarrow> [(k, serialized js v)]) es)"

text \<open>
  A pair of the current result that is not a pair of the previous result (its key is new
  or its serialized value changed) is a \<^verbatim>\<open>put\<close> of the serialized value at the composite
  key; a pair that is in both produces nothing; a key of the previous result that is no key
  of the current result is a \<^verbatim>\<open>del\<close> at the composite key.
\<close>

definition diff_operations ::
    "('k, 'v, 'd) index_env \<Rightarrow> 'k \<Rightarrow> ('k, 'v) entry list \<Rightarrow> ('k, 'v) entry list
      \<Rightarrow> operation list" where
  "diff_operations env i prev cur =
     map (\<lambda>p. Put (fullKey env (fst p) i) (Str (snd p)))
       (filter (\<lambda>p. p \<notin> set (entry_pairs (stringify env) prev))
          (entry_pairs (stringify env) cur))
     @ map (\<lambda>k. Del (fullKey env k i))
         (filter (\<lambda>k. k \<notin> fst ` set (entry_pairs (stringify env) cur))
            (map fst (entry_pairs (stringify env) prev)))"

text \<open>No entry is \<^verbatim>\<open>null\<close>; the keys of a list of entries.\<close>

definition no_null :: "('k, 'v) entry list \<Rightarrow> bool" where
  "no_null es \<longleftrightarrow> Null_entry \<notin> set es"

definition entry_keys :: "('k, 'v) entry list \<Rightarrow> 'k list" where
  "entry_keys es =
     concat (map (\<lambda>e. case entry_parts e of None \<Rightarrow> [] | Some (k, v) \<Rightarrow> [k]) es)"

subsection \<open>Committing and recording progress\<close>

text \<open>\<^verbatim>\<open>db.batch(operations)\<close> on a table\<close>

fun apply_batch :: "operation list \<Rightarrow> (buffer \<rightharpoonup> db_value) \<Rightarrow> (buffer \<rightharpoonup> db_value)" where
  "apply_batch [] db = db"
| "apply_batch (Put k v # ops) db = apply_batch ops (db(k \<mapsto> v))"
| "apply_batch (Del k # ops) db = apply_batch ops (db(k := None))"
| "apply_batch (Remove k # ops) db = apply_batch ops (db(k := None))"

text \<open>
  \<^verbatim>\<open>sendUpdates()\<close> (lines 275-301) replaces \<^verbatim>\<open>updatedIndexEntries\<close> by a new map and
  notifies the index instances; the notifications are not modelled.
\<close>

definition sendUpdates :: "('k, 'd, 's) index_state \<Rightarrow> ('k, 'd, 's) index_state" where
  "sendUpdates s = s\<lparr> updatedIndexEntries := [] \<rparr>"

text \<open>
  \<^verbatim>\<open>commitOperations()\<close> (lines 239-274), up to and including the callback that runs
  when the batch is written. \<^verbatim>\<open>this.queue[0]\<close> reads the own property named \<^verbatim>\<open>0\<close> of
  the queue object. The second component is the progress that \<^verbatim>\<open>whenIndexedProgress\<close>
  will store once the updates are sent (\<open>None\<close> when no batch was issued).
\<close>

definition commitOperations ::
    "('k, 'd, 's) index_state \<Rightarrow> ('k, 'd, 's) index_state \<times> int option" where
  "commitOperations s =
     (let indexedProgress =
            (case map_of (queue_props s) ''0'' of
               None \<Rightarrow> lastIndexedVersion s
             | Some nextIndexRequest \<Rightarrow>
                 min (request_version nextIndexRequest - 1) (lastIndexedVersion s))
      in if operations s = [] then (s\<lparr> queuedIndexedProgress := Some indexedProgress \<rparr>, None)
         else
           let queued = truthy_num (queuedIndexedProgress s);
               operationsToCommit =
                 operations s @
                 (case queuedIndexedProgress s of
                    Some p \<Rightarrow> if queued then [Put LAST_INDEXED_VERSION_KEY (Num p)] else []
                  | None \<Rightarrow> []);
               s1 = s\<lparr> operations := [], byteCount := 0,
                       queuedIndexedProgress :=
                         (if queued then None else queuedIndexedProgress s) \<rparr>;
               s2 = s1\<lparr> index_db := apply_batch operationsToCommit (index_db s1) \<rparr>
           in (sendUpdates s2, Some indexedProgress))"

text \<open>The callback of \<^verbatim>\<open>whenIndexedProgress\<close>: \<^verbatim>\<open>this.queuedIndexedProgress = indexedProgress\<close>.\<close>

definition progress_resolved ::
    "int option \<Rightarrow> ('k, 'd, 's) index_state \<Rightarrow> ('k, 'd, 's) index_state" where
  "progress_resolved pending s =
     (case pending of None \<Rightarrow> s | Some p \<Rightarrow> s\<lparr> queuedIndexedProgress := Some p \<rparr>)"

text \<open>Lines 184-187 of \<^verbatim>\<open>processQueue\<close>: the queued progress is written to the table.\<close>

definition store_progress :: "('k, 'd, 's) index_state \<Rightarrow> ('k, 'd, 's) index_state" where
  "store_progress s =
     (case queuedIndexedProgress s of
        Some p \<Rightarrow>
          if p \<noteq> 0
          then s\<lparr> index_db := (index_db s)(LAST_INDEXED_VERSION_KEY \<mapsto> Num p),
                  queuedIndexedProgress := None \<rparr>
          else s
      | None \<Rightarrow> s)"

text \<open>
  An update event of the source as \<^verbatim>\<open>static updated(event, by)\<close> queues it (lines
  412-446): the id, the previous state, and the event's version, type and sources.
\<close>

record ('k, 'd, 's) update_event =
  ev_id :: 'k
  ev_previous :: "'d option"
  ev_version :: int
  ev_deleted :: bool
  ev_sources :: "'s set option"
  ev_source :: "'s option"

text \<open>
  The request of the id is created, or moved to the end of the queue with the new
  version. When the version is missing, \<^verbatim>\<open>Error('missing version')\<close> is thrown after that:
  the request stays queued as it is then.
\<close>

definition enqueue ::
    "('k, 'd, 's) update_event \<Rightarrow> ('k, 'd, 's) index_state \<Rightarrow> ('k, 'd, 's) index_state" where
  "enqueue ev s =
     (let indexRequest =
            (case map_of (queue s) (ev_id ev) of
               Some rq \<Rightarrow> rq\<lparr> request_version := ev_version ev \<rparr>
             | None \<Rightarrow> \<lparr> previousState = ev_previous ev, deleted = False, sources = None,
                         request_version = ev_version ev \<rparr>);
          updated =
            (if ev_version ev = 0 then indexRequest
             else indexRequest\<lparr>
               deleted := ev_deleted ev,
               sources :=
                 (case ev_sources ev of
                    Some S \<Rightarrow> Some ((case sources indexRequest of None \<Rightarrow> {} | Some T \<Rightarrow> T) \<union> S)
                  | None \<Rightarrow>
                      (case ev_source ev of
                         Some x \<Rightarrow>
                           Some (insert x (case sources indexRequest of None \<Rightarrow> {} | Some T \<Rightarrow> T))
                       | None \<Rightarrow> sources indexRequest)) \<rparr>)
      in s\<lparr> queue := map_delete (ev_id ev) (queue s) @ [(ev_id ev, updated)] \<rparr>)"

text \<open>
  The \<^verbatim>\<open>for\<close> loop of \<^verbatim>\<open>processQueue\<close> (lines 152-179) over the requests queued when
  it starts: each is deleted from the queue and indexed; once more than
  \<^verbatim>\<open>2 * (Source.MAX_CONCURRENCY || 15)\<close> entries went by since the last commit, the
  operations are committed (here with the progress callback running before the loop goes
  on); the loop returns when \<^verbatim>\<open>cancelIndexing\<close> is set. The result tells whether it
  returned that way. \<open>reads\<close> gives what indexing an id gets from the source.
\<close>

definition concurrency :: "('k, 'v, 'd) index_env \<Rightarrow> nat" where
  "concurrency env =
     (if MAX_CONCURRENCY env = 0 then DEFAULT_INDEXING_CONCURRENCY else MAX_CONCURRENCY env)"

fun for_each_queued ::
    "('k, 'v, 'd) index_env \<Rightarrow> ('k \<Rightarrow> 'd source_read) \<Rightarrow> ('k \<times> ('d, 's) index_request) list
      \<Rightarrow> nat \<Rightarrow> ('k, 'd, 's) index_state \<Rightarrow> bool \<times> ('k, 'd, 's) index_state" where
  "for_each_queued env reads [] sinceLastStateUpdate s = (False, s)"
| "for_each_queued env reads (e # rest) sinceLastStateUpdate s =
     (let s1 = indexEntry env (fst e) (snd e) (reads (fst e))
                 (s\<lparr> queue := map_delete (fst e) (queue s) \<rparr>);
          committing = (sinceLastStateUpdate > concurrency env * 2);
          s2 = (if committing
                then (case commitOperations s1 of (s', pending) \<Rightarrow> progress_resolved pending s')
                else s1);
          n = (if committing then 0 else sinceLastStateUpdate + 1)
      in if cancelIndexing s2 then (True, s2) else for_each_queued env reads rest n s2)"

text \<open>
  The end of a pass (lines 180-187): while the in-flight entries are awaited the events
  \<open>arrivals\<close> are delivered, then the operations are committed, the progress callback is
  awaited, and the queued progress is stored.
\<close>

definition finish_pass ::
    "('k, 'd, 's) update_event list \<Rightarrow> ('k, 'd, 's) index_state \<Rightarrow> ('k, 'd, 's) index_state" where
  "finish_pass arrivals s =
     (let s1 = fold enqueue arrivals s
      in case commitOperations s1 of
           (s2, pending) \<Rightarrow> store_progress (progress_resolved pending s2))"

text \<open>
  \<^verbatim>\<open>processQueue()\<close> (lines 140-196): passes are repeated while the queue is not empty.
  The script gives, pass by pass, the events that arrive while the pass awaits its entries;
  after the script no event arrives, and the pass that follows leaves the queue empty.
\<close>

fun processQueue ::
    "('k, 'v, 'd) index_env \<Rightarrow> ('k \<Rightarrow> 'd source_read) \<Rightarrow> ('k, 'd, 's) update_event list list
      \<Rightarrow> ('k, 'd, 's) index_state \<Rightarrow> ('k, 'd, 's) index_state" where
  "processQueue env reads [] s =
     (case for_each_queued env reads (queue s) 0 s of
        (cancelled, s1) \<Rightarrow> if cancelled then s1 else finish_pass [] s1)"
| "processQueue env reads (arrivals # script) s =
     (case for_each_queued env reads (queue s) 0 s of
        (cancelled, s1) \<Rightarrow>
          if cancelled then s1
          else let s2 = finish_pass arrivals s1
               in if queue s2 \<noteq> [] then processQueue env reads script s2 else s2)"

subsection \<open>Concrete indexes\<close>

text \<open>An index over numbers as keys and ids, whose source data is the index result itself.\<close>

definition demo_env :: "(nat, string, (nat, string) indexed) index_env" where
  "demo_env = \<lparr> toBufferKey = (\<lambda>n. [of_nat n]), stringify = (\<lambda>v. v), indexBy = (\<lambda>d. d),
                 MAX_CONCURRENCY = 0 \<rparr>"

definition new_index :: "('k, 'd, 's) index_state" where
  "new_index = \<lparr> operations = [], byteCount = 0, lastIndexedVersion = 0,
                 updatedIndexEntries = [], queue = [], queue_props = [],
                 queuedIndexedProgress = None, cancelIndexing = False,
                 index_db = Map.empty \<rparr>"

definition rq_demo :: "((nat, string) indexed, nat) index_request" where
  "rq_demo = \<lparr> previousState = Some (Array_result
                  [Object_entry 1 (Some ''1''), Object_entry 2 (Some ''2''), Primitive_entry 5]),
               deleted = False, sources = None, request_version = 7 \<rparr>"

definition rd_demo :: "(nat, string) indexed source_read" where
  "rd_demo = \<lparr> for_throws = False,
               first_read = Inr (Some (Array_result
                  [Object_entry 1 (Some ''1''), Object_entry 2 (Some ''3''), Object_entry 4 None])),
               retry_read = Inl () \<rparr>"

definition rq_dup :: "((nat, string) indexed, nat) index_request" where
  "rq_dup = \<lparr> previousState = Some (Array_result [Object_entry 1 (Some ''1'')]),
              deleted = False, sources = None, request_version = 7 \<rparr>"

definition rd_dup :: "(nat, string) indexed source_read" where
  "rd_dup = \<lparr> for_throws = False,
              first_read = Inr (Some (Array_result
                 [Object_entry 1 (Some ''1''), Object_entry 1 (Some ''1'')])),
              retry_read = Inl () \<rparr>"

text \<open>
  A run for the watermark: the entity 1 was updated at version 10 and is queued; while the
  pass awaits its entries, an update of entity 2 with the lower version 5 arrives.
\<close>

definition late_event :: "(nat, (nat, string) indexed, nat) update_event" where
  "late_event = \<lparr> ev_id = 2, ev_previous = None, ev_version = 5, ev_deleted = False,
                  ev_sources = None, ev_source = None \<rparr>"

definition first_event :: "(nat, (nat, string) indexed, nat) update_event" where
  "first_event = \<lparr> ev_id = 1, ev_previous = None, ev_version = 10, ev_deleted = False,
                   ev_sources = None, ev_source = None \<rparr>"

definition demo_reads :: "nat \<Rightarrow> (nat, string) indexed source_read" where
  "demo_reads i = \<lparr> for_throws = False,
                    first_read = Inr (Some (Single_primitive (i + 2))),
                    retry_read = Inl () \<rparr>"

section \<open>The write batcher (Persisted.ts, dbPut)\<close>

definition LAST_VERSION_IN_DB_KEY :: buffer where
  "LAST_VERSION_IN_DB_KEY = [1, 2]"

text \<open>
  An entry of a write batch: \<^verbatim>\<open>{type: value === undefined ? 'remove' : 'put', key, value}\<close>.
  The type is determined by the value. The source's object carries no version (its
  \<^verbatim>\<open>putOperation.version\<close> reads \<^verbatim>\<open>undefined\<close>); \<open>op_version\<close> remembers the version
  the call counted towards \<^verbatim>\<open>lastVersion\<close>, and nothing the model computes reads it.
\<close>

record put_operation =
  op_key :: buffer
  op_value :: "string option"
  op_version :: int

definition to_operation :: "put_operation \<Rightarrow> operation" where
  "to_operation po =
     (case op_value po of None \<Rightarrow> Remove (op_key po) | Some v \<Rightarrow> Put (op_key po) (Str v))"

text \<open>
  A write batch: the \<^verbatim>\<open>Map\<close> with its \<^verbatim>\<open>writes\<close> and \<^verbatim>\<open>writeSize\<close>; whether its
  \<^verbatim>\<open>commitOperations\<close> has been replaced by the no-op (which also clears the timer);
  whether the callback that hands it to the engine has run; and the
  \<^verbatim>\<open>lastWriteCompletion\<close> its closure captured. A batch and its \<^verbatim>\<open>writeCompletion\<close>
  promise are created together and share one reference.
\<close>

record 'k write_batch =
  entries :: "('k \<times> put_operation) list"
  writes :: nat
  writeSize :: nat
  committing :: bool
  flushed :: bool
  lastWriteCompletion :: "nat option"

text \<open>
  The state of a class as the batcher sees it. \<open>batches\<close> is the store of batch objects,
  \<^verbatim>\<open>pendingWrites\<close> and \<^verbatim>\<open>currentWriteBatch\<close> hold references into it. \<open>in_flight\<close>
  are the calls of the engine's \<^verbatim>\<open>batch\<close> that have not settled, \<open>table\<close> the table,
  \<open>resolved\<close> and \<open>rejected\<close> the settled completion promises, \<open>console_errors\<close> counts
  \<^verbatim>\<open>console.error\<close>, and \<open>onDbFailure_called\<close> tells whether \<^verbatim>\<open>onDbFailure\<close> (the
  \<^verbatim>\<open>reject\<close> of the class's \<^verbatim>\<open>ready\<close> promise) was called.
\<close>

record 'k batcher =
  lastVersion :: int
  pendingWrites :: "nat list"
  currentWriteBatch :: "nat option"
  writeCompletion :: "nat option"
  batches :: "nat \<rightharpoonup> 'k write_batch"
  next_batch :: nat
  in_flight :: "(nat \<times> operation list) list"
  table :: "buffer \<rightharpoonup> db_value"
  resolved :: "nat set"
  rejected :: "nat set"
  console_errors :: nat
  onDbFailure_called :: bool

text \<open>
  The callback given to \<^verbatim>\<open>when(lastWriteCompletion, ...)\<close> (lines 617-642), up to the call
  of the engine: the operations of the batch, then the put of \<^verbatim>\<open>this.lastVersion\<close> at
  \<open>[1, 2]\<close>; \<^verbatim>\<open>this.currentWriteBatch = null\<close>.
\<close>

definition flush :: "nat \<Rightarrow> 'k batcher \<Rightarrow> 'k batcher" where
  "flush p s =
     (case batches s p of
        None \<Rightarrow> s
      | Some b \<Rightarrow>
          let ops = map (\<lambda>e. to_operation (snd e)) (entries b)
                      @ [Put LAST_VERSION_IN_DB_KEY (Num (lastVersion s))]
          in s\<lparr> batches := (batches s)(p \<mapsto> b\<lparr> flushed := True \<rparr>),
                currentWriteBatch := None,
                in_flight := in_flight s @ [(p, ops)] \<rparr>)"

text \<open>
  \<^verbatim>\<open>currentWriteBatch.commitOperations()\<close> (lines 612-643): a no-op once it has run;
  otherwise it runs the callback at once when \<^verbatim>\<open>lastWriteCompletion\<close> is not a promise,
  and leaves it to the promise otherwise.
\<close>

definition batch_commitOperations :: "nat \<Rightarrow> 'k batcher \<Rightarrow> 'k batcher" where
  "batch_commitOperations p s =
     (case batches s p of
        None \<Rightarrow> s
      | Some b \<Rightarrow>
          if committing b then s
          else let s1 = s\<lparr> batches := (batches s)(p \<mapsto> b\<lparr> committing := True \<rparr>) \<rparr>
               in (case lastWriteCompletion b of None \<Rightarrow> flush p s1 | Some q \<Rightarrow> s1))"

text \<open>\<^verbatim>\<open>version || getNextVersion()\<close>; \<open>nextVersion\<close> is what \<^verbatim>\<open>getNextVersion()\<close> returns.\<close>

definition effective_version :: "int option \<Rightarrow> int \<Rightarrow> int" where
  "effective_version version nextVersion =
     (case version of None \<Rightarrow> nextVersion | Some n \<Rightarrow> if n \<noteq> 0 then n else nextVersion)"

text \<open>\<^verbatim>\<open>value.length || 10\<close>\<close>

definition value_size :: "string \<Rightarrow> nat" where
  "value_size v = (if length v = 0 then 10 else length v)"

text \<open>
  The block of \<^verbatim>\<open>dbPut\<close> that opens a batch when there is none (lines 605-646): a new
  \<^verbatim>\<open>Map\<close> with \<^verbatim>\<open>writes = 0\<close> and \<^verbatim>\<open>writeSize = 0\<close>, pushed on \<^verbatim>\<open>pendingWrites\<close>,
  with a new \<^verbatim>\<open>writeCompletion\<close> promise; the closure keeps the previous
  \<^verbatim>\<open>writeCompletion\<close> as \<^verbatim>\<open>lastWriteCompletion\<close>.
\<close>

definition open_batch :: "'k batcher \<Rightarrow> 'k batcher" where
  "open_batch s =
     (let p = next_batch s
      in s\<lparr> batches := (batches s)(p \<mapsto>
                 \<lparr> entries = [], writes = 0, writeSize = 0, committing = False,
                   flushed = False, lastWriteCompletion = writeCompletion s \<rparr>),
             pendingWrites := pendingWrites s @ [p],
             currentWriteBatch := Some p,
             writeCompletion := Some p,
             next_batch := Suc p \<rparr>)"

text \<open>
  The batch after lines 647-652 recorded a write: the entry is set under its key,
  \<^verbatim>\<open>writes++\<close> counts it, and unless the count was already above 100 a truthy value adds
  its length to \<^verbatim>\<open>writeSize\<close>.
\<close>

definition counted ::
    "('k \<Rightarrow> buffer) \<Rightarrow> 'k \<Rightarrow> string option \<Rightarrow> int \<Rightarrow> 'k write_batch \<Rightarrow> 'k write_batch" where
  "counted tbk key value v b =
     b\<lparr> entries := map_set key \<lparr> op_key = tbk key, op_value = value, op_version = v \<rparr> (entries b),
        writes := Suc (writes b),
        writeSize := (case value of
                        None \<Rightarrow> writeSize b
                      | Some str \<Rightarrow> if writes b > 100 \<or> str = [] then writeSize b
                                    else writeSize b + value_size str) \<rparr>"

text \<open>
  The condition of line 652,
  \<^verbatim>\<open>writes++ > 100 || value && (writeSize += (value.length || 10)) > 100000\<close>, on the batch
  as it was before the write.
\<close>

definition over_limit :: "string option \<Rightarrow> 'k write_batch \<Rightarrow> bool" where
  "over_limit value b \<longleftrightarrow>
     writes b > 100
     \<or> (case value of
           None \<Rightarrow> False
         | Some str \<Rightarrow> str \<noteq> [] \<and> writeSize b + value_size str > 100000)"

text \<open>Lines 647-654 on the batch \<open>p\<close>.\<close>

definition record_write ::
    "('k \<Rightarrow> buffer) \<Rightarrow> nat \<Rightarrow> 'k \<Rightarrow> string option \<Rightarrow> int \<Rightarrow> 'k batcher \<Rightarrow> 'k batcher" where
  "record_write tbk p key value v s =
     (case batches s p of
        None \<Rightarrow> s
      | Some b \<Rightarrow>
          let s3 = s\<lparr> batches := (batches s)(p \<mapsto> counted tbk key value v b) \<rparr>
          in if over_limit value b then batch_commitOperations p s3 else s3)"

text \<open>
  \<^verbatim>\<open>static dbPut(key, value, version)\<close> (lines 598-656). The result is the
  \<^verbatim>\<open>writeCompletion\<close> it returns and the state after the call.
\<close>

definition dbPut ::
    "('k \<Rightarrow> buffer) \<Rightarrow> 'k \<Rightarrow> string option \<Rightarrow> int option \<Rightarrow> int \<Rightarrow> 'k batcher
      \<Rightarrow> nat option \<times> 'k batcher" where
  "dbPut tbk key value version nextVersion s =
     (let v = effective_version version nextVersion;
          s1 = s\<lparr> lastVersion := max (lastVersion s) v \<rparr>;
          s2 = (if currentWriteBatch s1 = None then open_batch s1 else s1)
      in (writeCompletion s2,
          case currentWriteBatch s2 of
            None \<Rightarrow> s2
          | Some p \<Rightarrow> record_write tbk p key value v s2))"

text \<open>
  \<^verbatim>\<open>pendingWrites.splice(pendingWrites.indexOf(batch), 1)\<close>: the first occurrence is
  removed; when there is none, \<^verbatim>\<open>indexOf\<close> is -1 and \<^verbatim>\<open>splice(-1, 1)\<close> removes the last
  element.
\<close>

definition splice_out :: "nat \<Rightarrow> nat list \<Rightarrow> nat list" where
  "splice_out p xs = (if p \<in> set xs then remove1 p xs else butlast xs)"

text \<open>
  The engine's promise for the batch \<open>p\<close> settles (lines 631-641): fulfilled (\<open>ok\<close>, the
  operations are in the table, atomically) or rejected (nothing is written, the error is
  logged). In both cases \<^verbatim>\<open>finished\<close> runs.
\<close>

definition batch_settled :: "nat \<Rightarrow> bool \<Rightarrow> 'k batcher \<Rightarrow> 'k batcher" where
  "batch_settled p ok s =
     (case map_of (in_flight s) p of
        None \<Rightarrow> s
      | Some ops \<Rightarrow>
          let s1 = s\<lparr> in_flight := filter (\<lambda>c. fst c \<noteq> p) (in_flight s) \<rparr>;
              s2 = (if ok then s1\<lparr> table := apply_batch ops (table s1) \<rparr>
                    else s1\<lparr> console_errors := Suc (console_errors s1) \<rparr>)
          in s2\<lparr> pendingWrites := splice_out p (pendingWrites s2),
                 writeCompletion := (if writeCompletion s2 = Some p then None
                                     else writeCompletion s2),
                 resolved := insert p (resolved s2) \<rparr>)"

text \<open>
  What can happen to a class's batcher: a call of \<^verbatim>\<open>dbPut\<close>; the 20 ms timer of a batch;
  the callback of a batch that waited for the completion of the batch before it (it can run
  once that completion is resolved); the engine settling a batch; and, from
  \<^verbatim>\<open>register\<close>, the failure of the class's reset, which is the one caller of
  \<^verbatim>\<open>onDbFailure\<close> (line 261).
\<close>

datatype 'k batcher_event =
    DbPut 'k "string option" "int option" int
  | Timer nat
  | Deferred nat
  | Settled nat bool
  | Reset_failed

fun batcher_step :: "('k \<Rightarrow> buffer) \<Rightarrow> 'k batcher_event \<Rightarrow> 'k batcher \<Rightarrow> 'k batcher" where
  "batcher_step tbk (DbPut key value version nextVersion) s =
     snd (dbPut tbk key value version nextVersion s)"
| "batcher_step tbk (Timer p) s = batch_commitOperations p s"
| "batcher_step tbk (Deferred p) s =
     (case batches s p of
        None \<Rightarrow> s
      | Some b \<Rightarrow>
          (case lastWriteCompletion b of
             None \<Rightarrow> s
           | Some q \<Rightarrow> if committing b \<and> \<not> flushed b \<and> q \<in> resolved s then flush p s else s))"
| "batcher_step tbk (Settled p ok) s = batch_settled p ok s"
| "batcher_step tbk Reset_failed s = s\<lparr> onDbFailure_called := True \<rparr>"

fun batcher_run :: "('k \<Rightarrow> buffer) \<Rightarrow> 'k batcher_event list \<Rightarrow> 'k batcher \<Rightarrow> 'k batcher" where
  "batcher_run tbk [] s = s"
| "batcher_run tbk (ev # evs) s = batcher_run tbk evs (batcher_step tbk ev s)"

text \<open>The batcher of a class after \<^verbatim>\<open>register\<close>, with the \<^verbatim>\<open>lastVersion\<close> read from the table.\<close>

definition registered :: "int \<Rightarrow> (buffer \<rightharpoonup> db_value) \<Rightarrow> 'k batcher" where
  "registered v tbl =
     \<lparr> lastVersion = v, pendingWrites = [], currentWriteBatch = None, writeCompletion = None,
       batches = Map.empty, next_batch = 0, in_flight = [], table = tbl,
       resolved = {}, rejected = {}, console_errors = 0, onDbFailure_called = False \<rparr>"



definition key_of_nat :: "nat \<Rightarrow> buffer" where
  "key_of_nat n = [2, of_nat n]"

subsection \<open>Invariants of the batcher, and concrete runs\<close>

text \<open>
  What holds of every batch \<open>b\<close> stored under the reference \<open>p\<close>: it was allocated; it
  is handed to the engine only after its \<^verbatim>\<open>commitOperations\<close> ran, and at once when it did
  not have to wait; the batch that \<^verbatim>\<open>currentWriteBatch\<close> refers to is the one batch not yet
  handed over, and it is among \<^verbatim>\<open>pendingWrites\<close>; the bounds on its counters; and no
  entry counted a version above \<^verbatim>\<open>lastVersion\<close>.
\<close>

definition batch_inv :: "'k batcher \<Rightarrow> nat \<Rightarrow> 'k write_batch \<Rightarrow> bool" where
  "batch_inv s p b \<longleftrightarrow>
      p < next_batch s
    \<and> (flushed b \<longrightarrow> committing b)
    \<and> (committing b \<and> lastWriteCompletion b = None \<longrightarrow> flushed b)
    \<and> (currentWriteBatch s = Some p \<longleftrightarrow> \<not> flushed b)
    \<and> (\<not> flushed b \<longrightarrow> p \<in> set (pendingWrites s))
    \<and> length (entries b) \<le> writes b
    \<and> (\<not> committing b \<longrightarrow> writes b \<le> 101 \<and> writeSize b \<le> 100000)
    \<and> (lastWriteCompletion b = None \<longrightarrow> writes b \<le> 102)
    \<and> (\<forall>e \<in> set (entries b). op_version (snd e) \<le> lastVersion s)"

text \<open>The operations handed to the engine for a batch, with the watermark \<open>lv\<close>.\<close>

definition flushed_operations :: "'k write_batch \<Rightarrow> int \<Rightarrow> operation list" where
  "flushed_operations b lv =
     map (\<lambda>e. to_operation (snd e)) (entries b) @ [Put LAST_VERSION_IN_DB_KEY (Num lv)]"

text \<open>
  What holds of every call of the engine that has not settled: its batch is pending and
  handed over, its operations are those of the batch followed by the put of a watermark that
  no entry of this or an earlier batch exceeds, and a batch not yet handed over is younger.
\<close>

definition call_inv :: "'k batcher \<Rightarrow> nat \<times> operation list \<Rightarrow> bool" where
  "call_inv s c \<longleftrightarrow>
      fst c \<in> set (pendingWrites s)
    \<and> (\<exists>b lv. batches s (fst c) = Some b \<and> flushed b
          \<and> snd c = flushed_operations b lv
          \<and> lv \<le> lastVersion s
          \<and> (\<forall>q b'. batches s q = Some b' \<and> q \<le> fst c \<longrightarrow>
                 (\<forall>e \<in> set (entries b'). op_version (snd e) \<le> lv)))
    \<and> (\<forall>q b'. batches s q = Some b' \<and> \<not> flushed b' \<longrightarrow> fst c < q)"

text \<open>The invariant of the batcher.\<close>

definition batcher_inv :: "'k batcher \<Rightarrow> bool" where
  "batcher_inv s \<longleftrightarrow>
      (\<forall>p b. batches s p = Some b \<longrightarrow> batch_inv s p b)
    \<and> (\<forall>c \<in> set (in_flight s). call_inv s c)
    \<and> distinct (pendingWrites s)
    \<and> (\<forall>p \<in> set (pendingWrites s). p < next_batch s)
    \<and> distinct (map fst (in_flight s))
    \<and> rejected s = {}"




text \<open>The write of a row with version 7 under the key \<open>k\<close>, as in \<open>puts_from\<close>.\<close>

abbreviation (input) "row_put k \<equiv> DbPut k (Some ''7,{}'') (Some 7) 0"


definition failing_run :: "nat batcher_event list" where
  "failing_run = [DbPut 1 (Some ''5,x'') (Some 5) 0, Timer 0]"

definition overlapping_run :: "nat batcher_event list" where
  "overlapping_run = [DbPut 1 (Some ''5,x'') (Some 5) 0, Timer 0, DbPut 2 (Some ''6,y'') (Some 6) 0]"

section \<open>The entity cache (Persisted.ts, KeyValued)\<close>

text \<open>
  The functions of the runtime and of the packages that the entity store is given:
  \<^verbatim>\<open>JSON.stringify\<close> and \<^verbatim>\<open>JSON.parse\<close>, the conversion of a string to a number (unary
  \<^verbatim>\<open>+\<close>, \<open>None\<close> for \<^verbatim>\<open>NaN\<close>), the conversion of a number to a string, and
  \<^verbatim>\<open>toBufferKey\<close>.
\<close>

record 'v codec =
  stringify_value :: "'v \<Rightarrow> string"
  parse_value :: "string \<Rightarrow> 'v"
  to_number :: "string \<Rightarrow> int option"
  show_number :: "int \<Rightarrow> string"
  key_bytes :: "js_id \<Rightarrow> buffer"

text \<open>
  \<^verbatim>\<open>clearCache()\<close> (lines 694-701). It is a method of the entity that reads and writes
  fields of the entity only.
\<close>

definition clearCache :: "'v entity \<Rightarrow> 'v entity" where
  "clearCache e =
     e\<lparr> asJSON := None,
        cachedValue := None,
        cachedVersion := Some (- 1),
        readyState := (if readyState e = Some Up_to_date \<or> readyState e = Some Invalidated
                       then None else readyState e) \<rparr>"

text \<open>
  \<^verbatim>\<open>static dbGet(key, asBuffer)\<close> (lines 658-669): the pending batches are consulted from
  the newest to the oldest, and the table only when none of them has the key. The value of a
  pending removal is \<^verbatim>\<open>undefined\<close>.
\<close>

fun pending_lookup ::
    "'k \<Rightarrow> nat list \<Rightarrow> (nat \<rightharpoonup> 'k write_batch) \<Rightarrow> put_operation option" where
  "pending_lookup key [] bs = None"
| "pending_lookup key (p # ps) bs =
     (case bs p of
        None \<Rightarrow> pending_lookup key ps bs
      | Some b \<Rightarrow>
          (case map_of (entries b) key of
             Some po \<Rightarrow> Some po
           | None \<Rightarrow> pending_lookup key ps bs))"

definition dbGet :: "('k \<Rightarrow> buffer) \<Rightarrow> 'k \<Rightarrow> 'k batcher \<Rightarrow> db_value option" where
  "dbGet tbk key s =
     (case pending_lookup key (rev (pendingWrites s)) (batches s) of
        Some po \<Rightarrow> map_option Str (op_value po)
      | None \<Rightarrow> table s (tbk key))"

text \<open>What \<^verbatim>\<open>loadLocalData\<close> returns: \<^verbatim>\<open>{version, asJSON}\<close>, \<^verbatim>\<open>{version}\<close> or \<^verbatim>\<open>{}\<close>.\<close>

record local_data =
  ld_version :: "int option"
  ld_asJSON :: "string option"

text \<open>
  \<^verbatim>\<open>withValue\<close> in \<^verbatim>\<open>loadLocalData\<close> (lines 392-409), on a string or nothing. The result
  \<open>None\<close> is the \<^verbatim>\<open>undefined\<close> it returns for a non-empty string that has no comma and is
  not a finite number.
\<close>

definition withValue :: "(string \<Rightarrow> int option) \<Rightarrow> string option \<Rightarrow> local_data option" where
  "withValue num data =
     (case data of
        None \<Rightarrow> Some \<lparr> ld_version = None, ld_asJSON = None \<rparr>
      | Some d \<Rightarrow>
          if d = [] then Some \<lparr> ld_version = None, ld_asJSON = None \<rparr>
          else let separatorIndex = length (takeWhile (\<lambda>c. c \<noteq> CHR '','') d)
               in if separatorIndex < length d
                  then Some \<lparr> ld_version = num (take separatorIndex d),
                              ld_asJSON = Some (drop (Suc separatorIndex) d) \<rparr>
                  else if num d \<noteq> None then Some \<lparr> ld_version = num d, ld_asJSON = None \<rparr>
                  else None)"

text \<open>
  \<^verbatim>\<open>loadLocalData\<close> (lines 389-411). \<open>None\<close>: the load fails (the stored value is not a
  string, or \<^verbatim>\<open>withValue\<close> returned \<^verbatim>\<open>undefined\<close>, which the caller cannot destructure).
\<close>

definition loadLocalData :: "'v codec \<Rightarrow> js_id batcher \<Rightarrow> js_id \<Rightarrow> local_data option" where
  "loadLocalData env s i =
     (case dbGet (key_bytes env) i s of
        None \<Rightarrow> withValue (to_number env) None
      | Some (Str d) \<Rightarrow> withValue (to_number env) (Some d)
      | Some (Num n) \<Rightarrow> None)"

text \<open>
  \<^verbatim>\<open>loadLatestLocalData()\<close> (lines 413-432) of a \<^verbatim>\<open>Persisted\<close> entity, whose version
  property is \<^verbatim>\<open>version\<close>. \<open>nextVersion\<close> is the version \<^verbatim>\<open>updateVersion()\<close> assigns.
\<close>

definition loadLatestLocalData ::
    "'v codec \<Rightarrow> int \<Rightarrow> js_id batcher \<Rightarrow> 'v entity \<Rightarrow> 'v entity option" where
  "loadLatestLocalData env nextVersion s e =
     (case loadLocalData env s (inst_id e) of
        None \<Rightarrow> None
      | Some data \<Rightarrow>
          Some (case ld_asJSON data of
                  Some j \<Rightarrow>
                    if j \<noteq> []
                    then e\<lparr> readyState := Some Up_to_date, entity_version := ld_version data,
                            asJSON := Some j \<rparr>
                    else if truthy_num (ld_version data)
                    then e\<lparr> entity_version :=
                               Some (max (case ld_version data of Some n \<Rightarrow> n | None \<Rightarrow> 0)
                                         (case entity_version e of Some n \<Rightarrow> n | None \<Rightarrow> 0)),
                            readyState := Some Invalidated \<rparr>
                    else e\<lparr> entity_version := Some nextVersion, readyState := Some No_local_data \<rparr>
                | None \<Rightarrow>
                    if truthy_num (ld_version data)
                    then e\<lparr> entity_version :=
                               Some (max (case ld_version data of Some n \<Rightarrow> n | None \<Rightarrow> 0)
                                         (case entity_version e of Some n \<Rightarrow> n | None \<Rightarrow> 0)),
                            readyState := Some Invalidated \<rparr>
                    else e\<lparr> entity_version := Some nextVersion, readyState := Some No_local_data \<rparr>))"

text \<open>
  The getter of the value property (lines 505-517): the cached value when there is one,
  else the parsed \<^verbatim>\<open>asJSON\<close>, which it caches, else nothing.
\<close>

definition get_value :: "'v codec \<Rightarrow> 'v entity \<Rightarrow> 'v option \<times> 'v entity" where
  "get_value env e =
     (case cachedValue e of
        Some v \<Rightarrow> (Some v, e)
      | None \<Rightarrow>
          (case asJSON e of
             Some j \<Rightarrow>
               if j \<noteq> []
               then (Some (parse_value env j), e\<lparr> cachedValue := Some (parse_value env j) \<rparr>)
               else (None, e)
           | None \<Rightarrow> (None, e)))"

text \<open>
  \<^verbatim>\<open>valueOf()\<close> (lines 671-692) without a context:
  \<^verbatim>\<open>when(this.readyState || this.loadLatestLocalData(), ...)\<close> loads only when
  \<^verbatim>\<open>readyState\<close> is unset, and \<^verbatim>\<open>super.valueOf(true)\<close>, the method of the reactive
  library's variable, returns the value property. \<open>None\<close>: the load fails.
\<close>

definition valueOf ::
    "'v codec \<Rightarrow> int \<Rightarrow> js_id batcher \<Rightarrow> 'v entity \<Rightarrow> ('v option \<times> 'v entity) option" where
  "valueOf env nextVersion s e =
     (case (if readyState e \<noteq> None then Some e else loadLatestLocalData env nextVersion s e) of
        None \<Rightarrow> None
      | Some e1 \<Rightarrow> Some (get_value env e1))"

text \<open>
  The setter of the value property (lines 519-596) on the canonical instance of a class
  that persists, for a value that is not a promise (\<open>None\<close> is a falsy value). The second
  component is the call \<^verbatim>\<open>Class.dbPut(this.id, data, version)\<close> it makes, if any.
\<close>

definition set_value ::
    "'v codec \<Rightarrow> 'v option \<Rightarrow> 'v entity \<Rightarrow> 'v entity \<times> write_request option" where
  "set_value env val e =
     (let newToCache = (readyState e = None \<or> readyState e = Some No_local_data);
          e1 = e\<lparr> cachedValue := val,
                  readyState := (if newToCache then Some Loading_local_data else readyState e) \<rparr>;
          shown = (case entity_version e of None \<Rightarrow> ''undefined'' | Some n \<Rightarrow> show_number env n)
      in case val of
           None \<Rightarrow>
             if newToCache then (e1\<lparr> readyState := Some No_local_data \<rparr>, None)
             else (e1\<lparr> readyState := Some Invalidated, asJSON := None \<rparr>,
                   Some (inst_id e, Some shown, entity_version e))
         | Some v \<Rightarrow>
             let json = stringify_value env v
             in (e1\<lparr> asJSON := Some json \<rparr>,
                 Some (inst_id e,
                       Some (if json \<noteq> [] then shown @ '','' @ json else shown),
                       entity_version e)))"

text \<open>
  The cache of an entity agrees with what a load returns: the same \<^verbatim>\<open>asJSON\<close>, and a
  cached value, if any, that is the parsed \<^verbatim>\<open>asJSON\<close>.
\<close>

definition cache_agrees :: "'v codec \<Rightarrow> local_data \<Rightarrow> 'v entity \<Rightarrow> bool" where
  "cache_agrees env data e \<longleftrightarrow>
     (case ld_asJSON data of
        Some j \<Rightarrow>
          if j \<noteq> []
          then asJSON e = Some j
               \<and> (cachedValue e = None \<or> cachedValue e = Some (parse_value env j))
          else (asJSON e = None \<or> asJSON e = Some []) \<and> cachedValue e = None
      | None \<Rightarrow> (asJSON e = None \<or> asJSON e = Some []) \<and> cachedValue e = None)"

subsection \<open>A concrete class\<close>

text \<open>Values are strings that serialize to themselves; numbers are written in unary.\<close>

definition unary_codec :: "string codec" where
  "unary_codec =
     \<lparr> stringify_value = (\<lambda>v. v),
       parse_value = (\<lambda>j. j),
       to_number = (\<lambda>str. if str \<noteq> [] \<and> list_all (\<lambda>c. c = CHR ''1'') str
                           then Some (int (length str)) else None),
       show_number = (\<lambda>n. replicate (nat n) (CHR ''1'')),
       key_bytes = (\<lambda>i. case i of IdNumber n \<Rightarrow> [2, of_int n] | _ \<Rightarrow> [3]) \<rparr>"

text \<open>An entity just obtained from \<^verbatim>\<open>for(7)\<close>, with version 3.\<close>

definition new_entity :: "string entity" where
  "new_entity = \<lparr> inst_id = IdNumber 7, readyState = None, asJSON = None, cachedValue = None,
                  cachedVersion = None, entity_version = Some 3 \<rparr>"

text \<open>The entity after its value was set to \<open>{}\<close>, and the class after the write this caused.\<close>

definition written_entity :: "string entity" where
  "written_entity = fst (set_value unary_codec (Some ''{}'') new_entity)"

definition written_class :: "js_id batcher" where
  "written_class =
     (case snd (set_value unary_codec (Some ''{}'') new_entity) of
        None \<Rightarrow> registered 0 Map.empty
      | Some (i, data, ver) \<Rightarrow>
          snd (dbPut (key_bytes unary_codec) i data ver 0 (registered 0 Map.empty)))"

text \<open>The entity as a later load finds it, once the batch is written.\<close>

definition stored_class :: "js_id batcher" where
  "stored_class = batcher_run (key_bytes unary_codec) [Timer 0, Settled 0 True] written_class"

definition loaded_entity :: "string entity" where
  "loaded_entity =
     (case loadLatestLocalData unary_codec 0 stored_class new_entity of
        None \<Rightarrow> new_entity | Some e \<Rightarrow> e)"

text \<open>The value that a load gives: the parsed \<^verbatim>\<open>asJSON\<close> of the stored row, if it has one.\<close>

definition stored_value :: "'v codec \<Rightarrow> local_data \<Rightarrow> 'v option" where
  "stored_value env data =
     (case ld_asJSON data of
        Some j \<Rightarrow> if j \<noteq> [] then Some (parse_value env j) else None
      | None \<Rightarrow> None)"

section \<open>Identity map: theorems\<close>

lemma for_id_bad_iff:
  "for_id sgt C i s = Inl Error_bad_id \<longleftrightarrow> gt_zero sgt i \<and> is_string i \<or> eq_null i"
  by (auto simp: for_id_def construct_def Let_def split: option.splits sum.splits)

lemma remove_id_bad_iff:
  "remove_id sgt C i s = Inl Error_bad_id \<longleftrightarrow> gt_zero sgt i \<and> is_string i \<or> falsy i"
proof (cases "gt_zero sgt i \<and> is_string i \<or> falsy i")
  case True
  then show ?thesis by (simp add: remove_id_def)
next
  case False
  then have nb: "\<not> (gt_zero sgt i \<and> is_string i \<or> eq_null i)"
    by (cases i) auto
  then have "for_id sgt C i s \<noteq> Inl Error_bad_id"
    by (simp add: for_id_bad_iff)
  with False show ?thesis
    by (auto simp: remove_id_def split: sum.splits)
qed

lemma eq_null_falsy: "eq_null i \<Longrightarrow> falsy i"
  by (cases i) auto

text \<open>
  C10. \<^verbatim>\<open>remove(id)\<close> throws the bad-id error for every falsy id, among them the number
  0 and the empty string; \<^verbatim>\<open>for(id)\<close> does not throw it for the number 0 (nor for the
  empty string when the empty string is not greater than zero, as in JavaScript); every id
  that \<^verbatim>\<open>for\<close> rejects as a bad id, \<^verbatim>\<open>remove\<close> rejects too. So \<^verbatim>\<open>remove\<close> rejects
  strictly more ids.
\<close>

theorem remove_rejects_strictly_more:
  "(falsy i \<longrightarrow> remove_id sgt C i s = Inl Error_bad_id)
   \<and> remove_id sgt C (IdNumber 0) s = Inl Error_bad_id
   \<and> remove_id sgt C (IdString []) s = Inl Error_bad_id
   \<and> for_id sgt C (IdNumber 0) s \<noteq> Inl Error_bad_id
   \<and> (\<not> sgt [] \<longrightarrow> for_id sgt C (IdString []) s \<noteq> Inl Error_bad_id)
   \<and> (for_id sgt C i s = Inl Error_bad_id \<longrightarrow> remove_id sgt C i s = Inl Error_bad_id)"
  by (auto simp: for_id_bad_iff remove_id_bad_iff eq_null_falsy)

theorem remove_rejects_strictly_more_witness:
  "falsy IdNaN
   \<and> remove_id digits_positive plain_class IdNaN (empty_class :: unit class_state) = Inl Error_bad_id
   \<and> \<not> digits_positive []
   \<and> for_id digits_positive plain_class (IdString []) (empty_class :: unit class_state) \<noteq> Inl Error_bad_id
   \<and> for_id digits_positive plain_class IdNull (empty_class :: unit class_state) = Inl Error_bad_id
   \<and> remove_id digits_positive plain_class IdNull (empty_class :: unit class_state) = Inl Error_bad_id"
  using remove_rejects_strictly_more [of IdNaN digits_positive plain_class "empty_class :: unit class_state"]
    remove_rejects_strictly_more [of IdNull digits_positive plain_class "empty_class :: unit class_state"]
  by (simp add: digits_positive_def for_id_def)

lemma bad_id_shape:
  "gt_zero sgt i \<and> is_string i \<or> eq_null i \<longleftrightarrow>
     (\<exists>str. i = IdString str \<and> sgt str) \<or> i = IdNull \<or> i = IdUndefined"
  by (cases i) auto

lemma for_id_cases:
  assumes "for_id sgt C i s = Inr (r, s')"
  shows "instancesById s i = Some r \<and> s' = s
       \<or> instancesById s i = None \<and> r = next_ref s \<and> next_ref s' = Suc r
         \<and> instancesById s' = (instancesById s)(i \<mapsto> r)
         \<and> (\<exists>e. construct C i = Inr e \<and> objects s' = (objects s)(r \<mapsto> e))"
  using assms
  by (auto simp: for_id_def Let_def split: if_splits option.splits sum.splits)

lemma construct_id: "construct C i = Inr e \<Longrightarrow> inst_id e = i"
  by (auto simp: construct_def split: if_splits)

lemma for_id_registered:
  assumes "for_id sgt C i s = Inr (r, s')"
  shows "instancesById s' i = Some r"
  using for_id_cases [OF assms] by auto

lemma for_id_again:
  assumes "for_id sgt C i s = Inr (r, s')"
  shows "for_id sgt C i s' = Inr (r, s')"
proof -
  have nb: "\<not> (gt_zero sgt i \<and> is_string i \<or> eq_null i)"
    using assms by (auto simp: for_id_def split: if_splits)
  have "instancesById s' i = Some r" by (rule for_id_registered [OF assms])
  with nb show ?thesis by (simp add: for_id_def)
qed

lemma for_id_keeps_others:
  assumes "for_id sgt C j s = Inr (r', s')" and "instancesById s i = Some r"
  shows "instancesById s' i = Some r"
  using for_id_cases [OF assms(1)] assms(2) by (auto split: if_splits)

lemma for_id_accepts:
  assumes "\<not> (gt_zero sgt i \<and> is_string i \<or> eq_null i)" and "\<not> is_Persisted C"
  shows "\<exists>r s'. for_id sgt C i s = Inr (r, s')"
  using assms by (auto simp: for_id_def construct_def Let_def split: option.splits)

lemma wf_class_fresh:
  assumes "wf_class s"
  shows "next_ref s \<notin> dom (objects s)" and "next_ref s \<notin> ran (instancesById s)"
proof -
  show "next_ref s \<notin> dom (objects s)"
    using assms unfolding wf_class_def by (metis less_irrefl)
  show "next_ref s \<notin> ran (instancesById s)"
  proof
    assume "next_ref s \<in> ran (instancesById s)"
    then obtain j where "instancesById s j = Some (next_ref s)"
      by (auto simp: ran_def)
    then have "next_ref s \<in> dom (objects s)"
      using assms unfolding wf_class_def by blast
    then show False
      using assms unfolding wf_class_def by (metis less_irrefl)
  qed
qed

lemma for_id_wf:
  assumes "for_id sgt C i s = Inr (r, s')" and "wf_class s"
  shows "wf_class s'"
  using for_id_cases [OF assms(1)]
proof
  assume "instancesById s i = Some r \<and> s' = s"
  with assms(2) show ?thesis by simp
next
  assume a: "instancesById s i = None \<and> r = next_ref s \<and> next_ref s' = Suc r
         \<and> instancesById s' = (instancesById s)(i \<mapsto> r)
         \<and> (\<exists>e. construct C i = Inr e \<and> objects s' = (objects s)(r \<mapsto> e))"
  then obtain e where e: "construct C i = Inr e" "objects s' = (objects s)(r \<mapsto> e)" by blast
  have ide: "inst_id e = i" by (rule construct_id [OF e(1)])
  have fresh: "\<And>j r'. instancesById s j = Some r' \<Longrightarrow> r' \<noteq> r"
    using wf_class_fresh(2) [OF assms(2)] a by (auto simp: ran_def)
  show ?thesis
    unfolding wf_class_def
  proof (intro conjI allI impI)
    fix j r' assume "instancesById s' j = Some r'"
    then show "\<exists>inst. objects s' r' = Some inst \<and> inst_id inst = j"
      using a e ide fresh assms(2) unfolding wf_class_def
      by (auto split: if_splits)
  next
    fix r' assume "r' \<in> dom (objects s')"
    then show "r' < next_ref s'"
      using a e assms(2) unfolding wf_class_def by (auto split: if_splits)
  qed
qed

lemma wf_no_shared_id:
  assumes "wf_class s"
  shows "no_shared_id s"
  unfolding no_shared_id_def
proof (intro allI impI)
  fix r1 r2 e1 e2
  assume h: "r1 \<in> ran (instancesById s) \<and> r2 \<in> ran (instancesById s)
        \<and> objects s r1 = Some e1 \<and> objects s r2 = Some e2 \<and> inst_id e1 = inst_id e2"
  then obtain i1 i2 where i: "instancesById s i1 = Some r1" "instancesById s i2 = Some r2"
    by (auto simp: ran_def)
  from assms i(1) h have "inst_id e1 = i1" unfolding wf_class_def by fastforce
  moreover from assms i(2) h have "inst_id e2 = i2" unfolding wf_class_def by fastforce
  ultimately have "i1 = i2" using h by simp
  with i show "r1 = r2" by simp
qed

lemma wf_empty_class: "wf_class empty_class"
  by (simp add: wf_class_def empty_class_def)

lemma for_7_empty:
  "for_id digits_positive plain_class (IdNumber 7) empty_class = Inr (0, class_with_7)"
  by (simp add: for_id_def construct_def plain_class_def empty_class_def class_with_7_def
      truthy_num_def)

lemma for_id_object:
  assumes "for_id sgt C i s = Inr (r, s')" and "wf_class s"
  shows "\<exists>e. objects s' r = Some e \<and> inst_id e = i"
proof -
  have "wf_class s'" by (rule for_id_wf [OF assms])
  moreover have "instancesById s' i = Some r" by (rule for_id_registered [OF assms(1)])
  ultimately show ?thesis unfolding wf_class_def by blast
qed

lemma class_with_7_object:
  "objects class_with_7 0 = Some \<lparr> inst_id = IdNumber 7, readyState = None, asJSON = None,
      cachedValue = None, cachedVersion = None, entity_version = None \<rparr>"
  "instancesById class_with_7 (IdNumber 7) = Some 0"
  by (simp_all add: class_with_7_def)

lemma for_7_again:
  "for_id digits_positive plain_class (IdNumber 7) class_with_7 = Inr (0, class_with_7)"
  by (simp add: for_id_def class_with_7_def)

text \<open>
  C6. \<^verbatim>\<open>for(id)\<close> throws the bad-id error exactly when the id is a string that converts
  to a number greater than zero, or is \<^verbatim>\<open>null\<close> or \<^verbatim>\<open>undefined\<close>. On every other id,
  called on a class that can be instantiated, it returns the canonical instance: the
  reference it returns is the one registered under the id after the call; when an instance
  was registered under the id before the call, it is that instance, and nothing is
  constructed or changed; when none was, it is one newly constructed instance that carries
  the id, stored at a new reference and registered under the id, all other registrations
  being kept. From a well-formed state, the object at the returned reference exists and
  carries the id.
\<close>

theorem for_id_bad_id_exactly:
  "(for_id sgt C i s = Inl Error_bad_id \<longleftrightarrow>
      (\<exists>str. i = IdString str \<and> sgt str) \<or> i = IdNull \<or> i = IdUndefined)
   \<and> (\<not> is_Persisted C \<and> for_id sgt C i s \<noteq> Inl Error_bad_id \<longrightarrow>
        (\<exists>r s'. for_id sgt C i s = Inr (r, s') \<and> instancesById s' i = Some r
           \<and> (instancesById s i = Some r \<and> s' = s
              \<or> instancesById s i = None \<and> r = next_ref s \<and> next_ref s' = Suc r
                \<and> instancesById s' = (instancesById s)(i \<mapsto> r)
                \<and> (\<exists>e. construct C i = Inr e \<and> inst_id e = i
                         \<and> objects s' = (objects s)(r \<mapsto> e)))
           \<and> (wf_class s \<longrightarrow> wf_class s' \<and> (\<exists>e. objects s' r = Some e \<and> inst_id e = i))))"
proof (intro conjI impI)
  show "for_id sgt C i s = Inl Error_bad_id \<longleftrightarrow>
      (\<exists>str. i = IdString str \<and> sgt str) \<or> i = IdNull \<or> i = IdUndefined"
    by (simp only: for_id_bad_iff bad_id_shape)
next
  assume a: "\<not> is_Persisted C \<and> for_id sgt C i s \<noteq> Inl Error_bad_id"
  then have "\<not> (gt_zero sgt i \<and> is_string i \<or> eq_null i)"
    by (simp only: for_id_bad_iff not_False_eq_True)
  with a obtain r s' where rs: "for_id sgt C i s = Inr (r, s')"
    using for_id_accepts by blast
  have reg: "instancesById s' i = Some r" by (rule for_id_registered [OF rs])
  have shape: "instancesById s i = Some r \<and> s' = s
              \<or> instancesById s i = None \<and> r = next_ref s \<and> next_ref s' = Suc r
                \<and> instancesById s' = (instancesById s)(i \<mapsto> r)
                \<and> (\<exists>e. construct C i = Inr e \<and> inst_id e = i
                         \<and> objects s' = (objects s)(r \<mapsto> e))"
    using for_id_cases [OF rs] construct_id by blast
  have obj: "wf_class s \<longrightarrow> wf_class s' \<and> (\<exists>e. objects s' r = Some e \<and> inst_id e = i)"
    using for_id_wf [OF rs] for_id_object [OF rs] by blast
  from rs reg shape obj
  show "\<exists>r s'. for_id sgt C i s = Inr (r, s') \<and> instancesById s' i = Some r
           \<and> (instancesById s i = Some r \<and> s' = s
              \<or> instancesById s i = None \<and> r = next_ref s \<and> next_ref s' = Suc r
                \<and> instancesById s' = (instancesById s)(i \<mapsto> r)
                \<and> (\<exists>e. construct C i = Inr e \<and> inst_id e = i
                         \<and> objects s' = (objects s)(r \<mapsto> e)))
           \<and> (wf_class s \<longrightarrow> wf_class s' \<and> (\<exists>e. objects s' r = Some e \<and> inst_id e = i))"
    by blast
qed

text \<open>
  The theorem at id 7 on a fresh class (an instance is constructed at reference 0), at id 7
  on the class after that call (the registered instance 0 is returned and the state is
  unchanged), and at the strings \<open>7\<close> (rejected) and \<open>seven\<close> (accepted).
\<close>

theorem for_id_bad_id_exactly_witness:
  "\<not> is_Persisted plain_class
   \<and> wf_class (empty_class :: unit class_state)
   \<and> for_id digits_positive plain_class (IdNumber 7) (empty_class :: unit class_state)
       \<noteq> Inl Error_bad_id
   \<and> (\<exists>r s' e. for_id digits_positive plain_class (IdNumber 7) (empty_class :: unit class_state)
         = Inr (r, s') \<and> instancesById s' (IdNumber 7) = Some r
         \<and> r = next_ref (empty_class :: unit class_state)
         \<and> objects s' r = Some e \<and> inst_id e = IdNumber 7 \<and> wf_class s')
   \<and> instancesById class_with_7 (IdNumber 7) = Some 0
   \<and> (\<exists>r s'. for_id digits_positive plain_class (IdNumber 7) class_with_7 = Inr (r, s')
         \<and> r = 0 \<and> s' = class_with_7)
   \<and> for_id digits_positive plain_class (IdString ''7'') (empty_class :: unit class_state)
       = Inl Error_bad_id
   \<and> for_id digits_positive plain_class (IdString ''seven'') (empty_class :: unit class_state)
       \<noteq> Inl Error_bad_id"
proof -
  have np: "\<not> is_Persisted plain_class" by (simp add: plain_class_def)
  have wf0: "wf_class (empty_class :: unit class_state)" by (rule wf_empty_class)
  have none0: "instancesById (empty_class :: unit class_state) (IdNumber 7) = None"
    by (simp add: empty_class_def)
  have ok0: "for_id digits_positive plain_class (IdNumber 7) (empty_class :: unit class_state)
               \<noteq> Inl Error_bad_id"
    by (simp add: for_7_empty)
  have ok1: "for_id digits_positive plain_class (IdNumber 7) class_with_7 \<noteq> Inl Error_bad_id"
    by (simp add: for_7_again)
  have reg1: "instancesById class_with_7 (IdNumber 7) = Some 0"
    by (rule class_with_7_object(2))
  have first: "\<exists>r s' e. for_id digits_positive plain_class (IdNumber 7)
                   (empty_class :: unit class_state) = Inr (r, s')
         \<and> instancesById s' (IdNumber 7) = Some r
         \<and> r = next_ref (empty_class :: unit class_state)
         \<and> objects s' r = Some e \<and> inst_id e = IdNumber 7 \<and> wf_class s'"
    using for_id_bad_id_exactly [of digits_positive plain_class "IdNumber 7"
            "empty_class :: unit class_state"] np wf0 none0 ok0
    by (metis option.distinct(1))
  have second: "\<exists>r s'. for_id digits_positive plain_class (IdNumber 7) class_with_7
                   = Inr (r, s') \<and> r = 0 \<and> s' = class_with_7"
    using for_id_bad_id_exactly [of digits_positive plain_class "IdNumber 7" class_with_7]
      np ok1 reg1
    by (metis option.distinct(1) option.inject)
  have bad: "for_id digits_positive plain_class (IdString ''7'')
               (empty_class :: unit class_state) = Inl Error_bad_id"
    using for_id_bad_id_exactly [of digits_positive plain_class "IdString ''7''"
            "empty_class :: unit class_state"]
    by (simp add: digits_positive_def)
  have good: "for_id digits_positive plain_class (IdString ''seven'')
               (empty_class :: unit class_state) \<noteq> Inl Error_bad_id"
    using for_id_bad_id_exactly [of digits_positive plain_class "IdString ''seven''"
            "empty_class :: unit class_state"]
    by (simp add: digits_positive_def)
  from np wf0 ok0 first reg1 second bad good show ?thesis by blast
qed

text \<open>
  C5. Identity. When \<^verbatim>\<open>for(id)\<close> returns an instance, it is either the one already
  registered under the id (and the state is unchanged) or a newly allocated one, registered
  under the id; a second call, directly or after a call of \<^verbatim>\<open>for\<close> on any id, returns
  the same instance. From a well-formed state the result is well-formed, the new instance is
  none of the earlier ones, and no two registered instances share an id.
\<close>

theorem for_id_identity:
  "for_id sgt C i s = Inr (r, s') \<longrightarrow>
     for_id sgt C i s' = Inr (r, s')
     \<and> (instancesById s i = Some r \<and> s' = s
        \<or> instancesById s i = None \<and> r = next_ref s
          \<and> instancesById s' = (instancesById s)(i \<mapsto> r)
          \<and> (\<exists>e. inst_id e = i \<and> objects s' = (objects s)(r \<mapsto> e)))
     \<and> (\<forall>j r2 s2. for_id sgt C j s' = Inr (r2, s2) \<longrightarrow> for_id sgt C i s2 = Inr (r, s2))
     \<and> (wf_class s \<longrightarrow>
          wf_class s' \<and> no_shared_id s'
          \<and> (instancesById s i = None \<longrightarrow>
                r \<notin> dom (objects s) \<and> r \<notin> ran (instancesById s)))"
proof
  assume a: "for_id sgt C i s = Inr (r, s')"
  have again: "for_id sgt C i s' = Inr (r, s')" by (rule for_id_again [OF a])
  have shape: "instancesById s i = Some r \<and> s' = s
        \<or> instancesById s i = None \<and> r = next_ref s
          \<and> instancesById s' = (instancesById s)(i \<mapsto> r)
          \<and> (\<exists>e. inst_id e = i \<and> objects s' = (objects s)(r \<mapsto> e))"
    using for_id_cases [OF a] construct_id by blast
  have later: "\<forall>j r2 s2. for_id sgt C j s' = Inr (r2, s2) \<longrightarrow> for_id sgt C i s2 = Inr (r, s2)"
  proof (intro allI impI)
    fix j r2 s2 assume b: "for_id sgt C j s' = Inr (r2, s2)"
    have nb: "\<not> (gt_zero sgt i \<and> is_string i \<or> eq_null i)"
      using a by (auto simp: for_id_def split: if_splits)
    have "instancesById s2 i = Some r"
      by (rule for_id_keeps_others [OF b for_id_registered [OF a]])
    with nb show "for_id sgt C i s2 = Inr (r, s2)" by (simp add: for_id_def)
  qed
  have wf: "wf_class s \<longrightarrow>
          wf_class s' \<and> no_shared_id s'
          \<and> (instancesById s i = None \<longrightarrow>
                r \<notin> dom (objects s) \<and> r \<notin> ran (instancesById s))"
  proof
    assume w: "wf_class s"
    have w': "wf_class s'" by (rule for_id_wf [OF a w])
    have "instancesById s i = None \<longrightarrow> r = next_ref s"
      using for_id_cases [OF a] by auto
    with w' w show "wf_class s' \<and> no_shared_id s'
          \<and> (instancesById s i = None \<longrightarrow>
                r \<notin> dom (objects s) \<and> r \<notin> ran (instancesById s))"
      using wf_no_shared_id wf_class_fresh by blast
  qed
  from again shape later wf
  show "for_id sgt C i s' = Inr (r, s')
     \<and> (instancesById s i = Some r \<and> s' = s
        \<or> instancesById s i = None \<and> r = next_ref s
          \<and> instancesById s' = (instancesById s)(i \<mapsto> r)
          \<and> (\<exists>e. inst_id e = i \<and> objects s' = (objects s)(r \<mapsto> e)))
     \<and> (\<forall>j r2 s2. for_id sgt C j s' = Inr (r2, s2) \<longrightarrow> for_id sgt C i s2 = Inr (r, s2))
     \<and> (wf_class s \<longrightarrow>
          wf_class s' \<and> no_shared_id s'
          \<and> (instancesById s i = None \<longrightarrow>
                r \<notin> dom (objects s) \<and> r \<notin> ran (instancesById s)))"
    by blast
qed

theorem for_id_identity_witness:
  "for_id digits_positive plain_class (IdNumber 7) empty_class = Inr (0, class_with_7)
   \<and> wf_class (empty_class :: unit class_state)
   \<and> for_id digits_positive plain_class (IdNumber 7) class_with_7 = Inr (0, class_with_7)
   \<and> wf_class class_with_7 \<and> no_shared_id class_with_7"
  using for_id_identity [of digits_positive plain_class "IdNumber 7" empty_class 0 class_with_7]
    for_7_empty wf_empty_class
  by blast

section \<open>The permission proxy: theorems\<close>

lemma invoke_raw:
  "invoke permitted (Suc n) (Raw r) name a =
     Some ([Call_own (Raw r) name a], Returned (Result_of (Raw r) name))"
  by simp

lemma invoke_proxied_stopNotifies:
  "invoke permitted (Suc n) (Proxied cls t) M_stopNotifies a =
     (case invoke permitted n t M_stopNotifies a of
        None \<Rightarrow> None
      | Some (tr, out) \<Rightarrow> Some (Enter_override M_stopNotifies t # tr, out))"
  by (simp add: methodOverrides_def)

text \<open>
  C9, as the code has it. \<^verbatim>\<open>stopNotifies\<close> called on a proxy runs the override once,
  with \<^verbatim>\<open>this\<close> bound to the wrapped target, and the override's call
  \<^verbatim>\<open>this.stopNotifies(target)\<close> runs the wrapped target's own \<^verbatim>\<open>stopNotifies\<close> on the
  same argument, with no permission check: the call returns as soon as the fuel exceeds the
  number of proxies around the plain object.
\<close>

theorem stopNotifies_delegates:
  "proxy_depth ob < n \<longrightarrow>
     invoke permitted n ob M_stopNotifies a =
       Some (override_chain ob @ [Call_own (raw_target ob) M_stopNotifies a],
             Returned (Result_of (raw_target ob) M_stopNotifies))"
proof (induction ob arbitrary: n)
  case (Raw r)
  show ?case
  proof
    assume "proxy_depth (Raw r) < n"
    then obtain m where "n = Suc m" by (cases n) auto
    then show "invoke permitted n (Raw r) M_stopNotifies a =
       Some (override_chain (Raw r) @ [Call_own (raw_target (Raw r)) M_stopNotifies a],
             Returned (Result_of (raw_target (Raw r)) M_stopNotifies))"
      by (simp only: invoke_raw override_chain.simps raw_target.simps append_Nil)
  qed
next
  case (Proxied cls t)
  show ?case
  proof
    assume d: "proxy_depth (Proxied cls t) < n"
    then obtain m where m: "n = Suc m" by (cases n) auto
    with d have "proxy_depth t < m" by simp
    with Proxied.IH have
      "invoke permitted m t M_stopNotifies a =
         Some (override_chain t @ [Call_own (raw_target t) M_stopNotifies a],
               Returned (Result_of (raw_target t) M_stopNotifies))"
      by blast
    then show "invoke permitted n (Proxied cls t) M_stopNotifies a =
       Some (override_chain (Proxied cls t)
               @ [Call_own (raw_target (Proxied cls t)) M_stopNotifies a],
             Returned (Result_of (raw_target (Proxied cls t)) M_stopNotifies))"
      unfolding m invoke_proxied_stopNotifies by simp
  qed
qed

theorem stopNotifies_delegates_witness:
  "proxy_depth (Proxied 0 (Raw 1)) < 2
   \<and> invoke (\<lambda>t name. False) 2 (Proxied 0 (Raw 1)) M_stopNotifies (5::nat) =
       Some ([Enter_override M_stopNotifies (Raw 1), Call_own (Raw 1) M_stopNotifies 5],
             Returned (Result_of (Raw 1) M_stopNotifies))"
  using stopNotifies_delegates [of "Proxied 0 (Raw 1)" 2 "\<lambda>t name. False" "5::nat"]
  by simp

text \<open>
  C9 as stated fails: inside the override, \<^verbatim>\<open>this\<close> is the plain target, whose
  \<^verbatim>\<open>stopNotifies\<close> property is its own method and not the override; the call returns,
  having entered the override once and run the target's own method.
\<close>

theorem stopNotifies_recursion_counterexample:
  "get_prop (Proxied 0 (Raw 1)) M_stopNotifies = Override M_stopNotifies (Raw 1)
   \<and> get_prop (Raw 1) M_stopNotifies = Own (Raw 1) M_stopNotifies
   \<and> invoke (\<lambda>t name. True) (Suc (Suc 0)) (Proxied 0 (Raw 1)) M_stopNotifies (5::nat) =
       Some ([Enter_override M_stopNotifies (Raw 1), Call_own (Raw 1) M_stopNotifies 5],
             Returned (Result_of (Raw 1) M_stopNotifies))"
  by (simp add: methodOverrides_def)

section \<open>The incremental indexer: theorems\<close>

lemma entry_parts_None: "entry_parts e = None \<longleftrightarrow> e = Null_entry"
  by (cases e) auto

lemma entry_pairs_Nil [simp]: "entry_pairs js [] = []"
  by (simp add: entry_pairs_def)

lemma entry_pairs_Cons:
  "entry_pairs js (e # es) =
     (case entry_parts e of None \<Rightarrow> [] | Some (k, v) \<Rightarrow> [(k, serialized js v)]) @ entry_pairs js es"
  by (simp add: entry_pairs_def)

lemma entry_keys_pairs: "entry_keys es = map fst (entry_pairs js es)"
  by (induction es) (auto simp: entry_keys_def entry_pairs_Cons split: option.splits)

lemma map_set_fresh: "k \<notin> fst ` set m \<Longrightarrow> map_set k v m = m @ [(k, v)]"
  by (induction m) auto

lemma collect_previous_distinct:
  "no_null es \<Longrightarrow> distinct (entry_keys es) \<Longrightarrow> set (entry_keys es) \<inter> fst ` set tr = {}
   \<Longrightarrow> collect_previous js es tr = Some (tr @ entry_pairs js es)"
proof (induction es arbitrary: tr)
  case Nil
  then show ?case by simp
next
  case (Cons e es)
  from Cons.prems(1) obtain k v where kv: "entry_parts e = Some (k, v)"
    by (cases e) (auto simp: no_null_def)
  from Cons.prems kv have fresh: "k \<notin> fst ` set tr" and k_es: "k \<notin> set (entry_keys es)"
    and d: "distinct (entry_keys es)" and nn: "no_null es"
    and disj: "set (entry_keys es) \<inter> fst ` set tr = {}"
    by (auto simp: entry_keys_def no_null_def)
  have ms: "map_set k (serialized js v) tr = tr @ [(k, serialized js v)]"
    by (rule map_set_fresh [OF fresh])
  have "set (entry_keys es) \<inter> fst ` set (tr @ [(k, serialized js v)]) = {}"
    using disj k_es by auto
  from Cons.IH [OF nn d this] kv ms show ?case
    by (simp add: entry_pairs_Cons)
qed

lemma map_of_map_delete: "k' \<noteq> k \<Longrightarrow> map_of (map_delete k m) k' = map_of m k'"
  by (induction m) (auto simp: map_delete_def)

lemma map_delete_absent: "map_of m k = None \<Longrightarrow> map_delete k m = m"
  by (induction m) (auto simp: map_delete_def split: if_splits)

lemma index_entries_distinct:
  "no_null es \<Longrightarrow> distinct (entry_keys es) \<Longrightarrow>
   \<exists>s'. index_entries env i srcs es tr s
          = Inr (filter (\<lambda>e. fst e \<notin> set (entry_keys es)) tr, s')
      \<and> operations s' = operations s
          @ map (\<lambda>p. Put (fullKey env (fst p) i) (Str (snd p)))
              (filter (\<lambda>p. map_of tr (fst p) \<noteq> Some (snd p)) (entry_pairs (stringify env) es))"
proof (induction es arbitrary: tr s)
  case Nil
  then show ?case by (simp add: entry_keys_def)
next
  case (Cons e es)
  from Cons.prems(1) obtain k v where kv: "entry_parts e = Some (k, v)"
    by (cases e) (auto simp: no_null_def)
  from Cons.prems kv have k_es: "k \<notin> set (entry_keys es)"
    and d: "distinct (entry_keys es)" and nn: "no_null es"
    by (auto simp: entry_keys_def no_null_def)
  define val where "val = serialized (stringify env) v"
  define tr1 where "tr1 = map_delete k tr"
  define s1 where "s1 = (if map_of tr k = None \<or> Some val \<noteq> map_of tr k
                    then s\<lparr> operations := operations s @ [Put (fullKey env k i) (Str val)],
                            byteCount := byteCount s + length val + length (fullKey env k i),
                            updatedIndexEntries :=
                              addUpdatedIndexEntry k srcs (updatedIndexEntries s) \<rparr>
                    else s)"
  have tr1_alt: "(if map_of tr k \<noteq> None then map_delete k tr else tr) = tr1"
    by (simp add: tr1_def map_delete_absent)
  have step: "index_entries env i srcs (e # es) tr s = index_entries env i srcs es tr1 s1"
    using kv tr1_alt by (simp add: Let_def val_def s1_def)
  from Cons.IH [OF nn d, of tr1 s1] obtain s' where
    r: "index_entries env i srcs es tr1 s1
          = Inr (filter (\<lambda>e. fst e \<notin> set (entry_keys es)) tr1, s')"
    and o: "operations s' = operations s1
          @ map (\<lambda>p. Put (fullKey env (fst p) i) (Str (snd p)))
              (filter (\<lambda>p. map_of tr1 (fst p) \<noteq> Some (snd p)) (entry_pairs (stringify env) es))"
    by blast
  have f1: "filter (\<lambda>x. fst x \<notin> set (entry_keys es)) tr1
            = filter (\<lambda>x. fst x \<notin> set (entry_keys (e # es))) tr"
    using kv by (auto simp: tr1_def map_delete_def entry_keys_def intro: filter_cong)
  have f2: "filter (\<lambda>p. map_of tr1 (fst p) \<noteq> Some (snd p)) (entry_pairs (stringify env) es)
          = filter (\<lambda>p. map_of tr (fst p) \<noteq> Some (snd p)) (entry_pairs (stringify env) es)"
  proof (rule filter_cong [OF refl])
    fix p assume "p \<in> set (entry_pairs (stringify env) es)"
    then have "fst p \<in> set (entry_keys es)"
      by (simp add: entry_keys_pairs [of es "stringify env"])
    with k_es have "fst p \<noteq> k" by auto
    then show "(map_of tr1 (fst p) \<noteq> Some (snd p)) = (map_of tr (fst p) \<noteq> Some (snd p))"
      by (simp add: tr1_def map_of_map_delete)
  qed
  have o1: "operations s1 = operations s
       @ map (\<lambda>p. Put (fullKey env (fst p) i) (Str (snd p)))
           (filter (\<lambda>p. map_of tr (fst p) \<noteq> Some (snd p)) [(k, val)])"
    by (auto simp: s1_def)
  have "operations s' = operations s
          @ map (\<lambda>p. Put (fullKey env (fst p) i) (Str (snd p)))
              (filter (\<lambda>p. map_of tr (fst p) \<noteq> Some (snd p))
                 (entry_pairs (stringify env) (e # es)))"
    using o o1 f2 kv by (simp add: entry_pairs_Cons val_def)
  with step r f1 show ?case by simp
qed

lemma emit_dels_operations:
  "operations (emit_dels env i srcs tr s)
     = operations s @ map (\<lambda>e. Del (fullKey env (fst e) i)) tr"
  by (induction tr arbitrary: s) auto

lemma emit_dels_version [simp]:
  "lastIndexedVersion (emit_dels env i srcs tr s) = lastIndexedVersion s"
  by (induction tr arbitrary: s) auto


lemma distinct_map_of_iff:
  "distinct (map fst m) \<Longrightarrow> (map_of m k \<noteq> Some v) = ((k, v) \<notin> set m)"
  by (auto simp: map_of_eq_Some_iff)

text \<open>
  C2, as the code has it. When indexing the request does not throw (the source instance
  is found and no entry is \<^verbatim>\<open>null\<close>) and neither result of \<^verbatim>\<open>indexBy\<close> lists a key
  twice, the operations \<^verbatim>\<open>indexEntry\<close> pushes are the difference of the previous result
  against the current one (empty when the request is a deletion or the value could not be
  loaded): no operation for a pair in both, a \<^verbatim>\<open>put\<close> of the serialized value (the empty
  string when there is no value) at \<open>toBufferKey key @ [30] @ toBufferKey id\<close> for a pair
  that is new or changed, then a \<^verbatim>\<open>del\<close> at the composite key of every previous key that
  is no current key.
\<close>

theorem indexEntry_emits_diff:
  assumes "\<not> for_throws rd"
    and "no_null (previous_entries env rq)"
    and "no_null (current_entries env (load_data rd))"
    and "distinct (entry_keys (previous_entries env rq))"
    and "distinct (entry_keys (current_entries env (load_data rd)))"
  shows "operations (indexEntry env i rq rd s) =
           operations s @ diff_operations env i (previous_entries env rq)
             (if deleted rq then [] else current_entries env (load_data rd))"
proof -
  define prev where "prev = previous_entries env rq"
  define cur where "cur = (if deleted rq then [] else current_entries env (load_data rd))"
  define tr where "tr = entry_pairs (stringify env) prev"
  have nn: "no_null cur" and dc: "distinct (entry_keys cur)"
    using assms(3,5) by (auto simp: cur_def no_null_def entry_keys_def)
  have dtr: "distinct (map fst tr)"
    using assms(4) by (simp add: tr_def prev_def entry_keys_pairs [of _ "stringify env"])
  have cp: "collect_previous (stringify env) prev [] = Some tr"
    using collect_previous_distinct [OF assms(2,4), of "[]" "stringify env"]
    by (simp add: tr_def prev_def)
  obtain s' where
    ie: "index_entries env i (sources rq) cur tr s
          = Inr (filter (\<lambda>e. fst e \<notin> set (entry_keys cur)) tr, s')"
    and ops: "operations s' = operations s
          @ map (\<lambda>p. Put (fullKey env (fst p) i) (Str (snd p)))
              (filter (\<lambda>p. map_of tr (fst p) \<noteq> Some (snd p)) (entry_pairs (stringify env) cur))"
    using index_entries_distinct [OF nn dc] by blast
  have loop: "(if \<not> deleted rq
                 then index_entries env i (sources rq)
                        (current_entries env (load_data rd)) tr s
                 else Inr (tr, s))
        = Inr (filter (\<lambda>e. fst e \<notin> set (entry_keys cur)) tr, (if deleted rq then s else s'))"
  proof (cases "deleted rq")
    case True
    then show ?thesis by (simp add: cur_def entry_keys_def)
  next
    case False
    with ie show ?thesis by (simp add: cur_def)
  qed
  have ops': "operations (if deleted rq then s else s') = operations s
          @ map (\<lambda>p. Put (fullKey env (fst p) i) (Str (snd p)))
              (filter (\<lambda>p. map_of tr (fst p) \<noteq> Some (snd p)) (entry_pairs (stringify env) cur))"
    using ops by (simp add: cur_def)
  have res: "operations (indexEntry env i rq rd s)
       = operations (if deleted rq then s else s')
           @ map (\<lambda>e. Del (fullKey env (fst e) i))
               (filter (\<lambda>e. fst e \<notin> set (entry_keys cur)) tr)"
    using assms(1) cp loop
    by (simp add: indexEntry_def prev_def [symmetric] Let_def emit_dels_operations)
  have puts: "filter (\<lambda>p. map_of tr (fst p) \<noteq> Some (snd p)) (entry_pairs (stringify env) cur)
        = filter (\<lambda>p. p \<notin> set tr) (entry_pairs (stringify env) cur)"
    by (rule filter_cong [OF refl]) (simp add: distinct_map_of_iff [OF dtr] split_beta)
  have dels: "map (\<lambda>e. Del (fullKey env (fst e) i))
                 (filter (\<lambda>e. fst e \<notin> set (entry_keys cur)) tr)
        = map (\<lambda>k. Del (fullKey env k i))
            (filter (\<lambda>k. k \<notin> fst ` set (entry_pairs (stringify env) cur)) (map fst tr))"
    by (simp add: entry_keys_pairs [of cur "stringify env"] filter_map comp_def)
  show ?thesis
    unfolding res ops' puts dels diff_operations_def prev_def [symmetric] cur_def [symmetric]
      tr_def [symmetric]
    by simp
qed

theorem indexEntry_emits_diff_witness:
  "operations (indexEntry demo_env 9 rq_demo rd_demo new_index)
     = [Put [2, 30, 9] (Str ''3''), Put [4, 30, 9] (Str []), Del [5, 30, 9]]"
  using indexEntry_emits_diff [of rd_demo demo_env rq_demo 9 new_index]
  by (simp add: demo_env_def rq_demo_def rd_demo_def new_index_def previous_entries_def
      current_entries_def load_data_def serialized_def fullKey_def SEPARATOR_BYTE_def
      diff_operations_def entry_pairs_def no_null_def entry_keys_def)

text \<open>
  C2 as stated fails when \<^verbatim>\<open>indexBy\<close> lists a key twice: the previous result is
  \<open>[{key: 1, value: "1"}]\<close> and the current one lists that unchanged pair twice; the
  difference is empty, but \<^verbatim>\<open>indexEntry\<close> removes the key from \<^verbatim>\<open>toRemove\<close> at the
  first occurrence and emits a \<^verbatim>\<open>put\<close> for the second.
\<close>

theorem indexEntry_duplicate_key_counterexample:
  "operations (indexEntry demo_env 9 rq_dup rd_dup new_index) = [Put [1, 30, 9] (Str ''1'')]
   \<and> diff_operations demo_env 9 (previous_entries demo_env rq_dup)
         (current_entries demo_env (load_data rd_dup)) = []"
  by (simp add: indexEntry_def demo_env_def rq_dup_def rd_dup_def new_index_def
      previous_entries_def current_entries_def load_data_def serialized_def map_delete_def
      fullKey_def SEPARATOR_BYTE_def addUpdatedIndexEntry_def diff_operations_def
      entry_pairs_def Let_def)

subsection \<open>The watermark\<close>

lemma commitOperations_progress:
  assumes "queue_props s = []" and "operations s = []"
  shows "commitOperations s = (s\<lparr> queuedIndexedProgress := Some (lastIndexedVersion s) \<rparr>, None)"
  using assms by (simp add: commitOperations_def)

lemma enqueue_queue_props [simp]: "queue_props (enqueue ev s) = queue_props s"
  by (simp add: enqueue_def Let_def)

lemma emit_dels_queue_props [simp]: "queue_props (emit_dels env i srcs tr s) = queue_props s"
  by (induction tr arbitrary: s) auto

lemma index_entries_queue_props:
  "index_entries env i srcs es tr s = Inr (tr', s') \<Longrightarrow> queue_props s' = queue_props s"
  "index_entries env i srcs es tr s = Inl s'' \<Longrightarrow> queue_props s'' = queue_props s"
  by (induction es arbitrary: tr s) (auto simp: Let_def split: option.splits if_splits)

lemma indexEntry_queue_props [simp]: "queue_props (indexEntry env i rq rd s) = queue_props s"
  by (auto simp: indexEntry_def Let_def index_entries_queue_props
      split: option.splits sum.splits if_splits)

text \<open>
  C1, on the code. Entity 1 (version 10) is indexed; before the pass commits, an update of
  entity 2 with version 5 is queued. \<^verbatim>\<open>commitOperations\<close> reads \<^verbatim>\<open>this.queue[0]\<close>, which
  a \<^verbatim>\<open>Map\<close> does not have, so the progress is \<^verbatim>\<open>lastIndexedVersion\<close> = 10, and the pass
  stores 10 at \<open>[1, 2]\<close> while the request of version 5 is still queued.
\<close>

theorem watermark_passes_queued_request:
  "index_db (finish_pass [late_event]
       (snd (for_each_queued demo_env demo_reads (queue (enqueue first_event new_index)) 0
               (enqueue first_event new_index))))
     LAST_INDEXED_VERSION_KEY = Some (Num 10)
   \<and> map (\<lambda>e. request_version (snd e))
       (queue (finish_pass [late_event]
          (snd (for_each_queued demo_env demo_reads (queue (enqueue first_event new_index)) 0
                  (enqueue first_event new_index))))) = [5]
   \<and> queue_props (finish_pass [late_event]
          (snd (for_each_queued demo_env demo_reads (queue (enqueue first_event new_index)) 0
                  (enqueue first_event new_index)))) = []"
  by (simp add: finish_pass_def enqueue_def first_event_def late_event_def new_index_def
      demo_env_def demo_reads_def indexEntry_def previous_entries_def current_entries_def
      load_data_def serialized_def map_delete_def fullKey_def SEPARATOR_BYTE_def
      addUpdatedIndexEntry_def commitOperations_def progress_resolved_def store_progress_def
      sendUpdates_def concurrency_def DEFAULT_INDEXING_CONCURRENCY_def truthy_num_def
      LAST_INDEXED_VERSION_KEY_def Let_def)

section \<open>The write batcher: theorems\<close>

lemma batcher_invI:
  assumes "\<And>p b. batches s p = Some b \<Longrightarrow> batch_inv s p b"
    and "\<And>c. c \<in> set (in_flight s) \<Longrightarrow> call_inv s c"
    and "distinct (pendingWrites s)"
    and "\<And>p. p \<in> set (pendingWrites s) \<Longrightarrow> p < next_batch s"
    and "distinct (map fst (in_flight s))"
    and "rejected s = {}"
  shows "batcher_inv s"
  using assms unfolding batcher_inv_def by blast

lemma batcher_inv_batch: "batcher_inv s \<Longrightarrow> batches s p = Some b \<Longrightarrow> batch_inv s p b"
  unfolding batcher_inv_def by blast

lemma batcher_inv_call: "batcher_inv s \<Longrightarrow> c \<in> set (in_flight s) \<Longrightarrow> call_inv s c"
  unfolding batcher_inv_def by blast

lemma batcher_inv_rest:
  assumes "batcher_inv s"
  shows "distinct (pendingWrites s)" and "\<And>p. p \<in> set (pendingWrites s) \<Longrightarrow> p < next_batch s"
    and "distinct (map fst (in_flight s))" and "rejected s = {}"
  using assms unfolding batcher_inv_def by blast+

lemma call_invI:
  assumes "fst c \<in> set (pendingWrites s)" and "batches s (fst c) = Some b" and "flushed b"
    and "snd c = flushed_operations b lv" and "lv \<le> lastVersion s"
    and "\<And>q b' e. batches s q = Some b' \<Longrightarrow> q \<le> fst c \<Longrightarrow> e \<in> set (entries b')
           \<Longrightarrow> op_version (snd e) \<le> lv"
    and "\<And>q b'. batches s q = Some b' \<Longrightarrow> \<not> flushed b' \<Longrightarrow> fst c < q"
  shows "call_inv s c"
  unfolding call_inv_def using assms by blast

lemma call_invE:
  assumes "call_inv s c"
  obtains b lv where "fst c \<in> set (pendingWrites s)" and "batches s (fst c) = Some b"
    and "flushed b" and "snd c = flushed_operations b lv" and "lv \<le> lastVersion s"
    and "\<And>q b' e. batches s q = Some b' \<Longrightarrow> q \<le> fst c \<Longrightarrow> e \<in> set (entries b')
           \<Longrightarrow> op_version (snd e) \<le> lv"
    and "\<And>q b'. batches s q = Some b' \<Longrightarrow> \<not> flushed b' \<Longrightarrow> fst c < q"
  using assms unfolding call_inv_def by blast

lemma in_flight_flushed:
  assumes "batcher_inv s" and "c \<in> set (in_flight s)" and "batches s (fst c) = Some b"
  shows "flushed b"
  using batcher_inv_call [OF assms(1,2)] assms(3) by (elim call_invE) simp

lemma in_flight_below:
  assumes "batcher_inv s" and "c \<in> set (in_flight s)" and "batches s p = Some b" and "\<not> flushed b"
  shows "fst c < p"
  using batcher_inv_call [OF assms(1,2)] assms(3,4) by (elim call_invE) blast

text \<open>
  A call keeps its invariant when its own batch stays, the version does not decrease, and
  every batch is either as before or has a larger reference.
\<close>

lemma call_inv_transfer:
  assumes ci: "call_inv s c"
    and pw: "fst c \<in> set (pendingWrites s) \<Longrightarrow> fst c \<in> set (pendingWrites s')"
    and lv: "lastVersion s \<le> lastVersion s'"
    and own: "batches s' (fst c) = batches s (fst c)"
    and others: "\<And>q b'. batches s' q = Some b' \<Longrightarrow> batches s q = Some b' \<or> fst c < q"
  shows "call_inv s' c"
  using ci
proof (elim call_invE)
  fix b w
  assume c1: "fst c \<in> set (pendingWrites s)" and c2: "batches s (fst c) = Some b"
    and c3: "flushed b" and c4: "snd c = flushed_operations b w" and c5: "w \<le> lastVersion s"
    and c6: "\<And>q b' e. batches s q = Some b' \<Longrightarrow> q \<le> fst c \<Longrightarrow> e \<in> set (entries b')
           \<Longrightarrow> op_version (snd e) \<le> w"
    and c7: "\<And>q b'. batches s q = Some b' \<Longrightarrow> \<not> flushed b' \<Longrightarrow> fst c < q"
  show ?thesis
  proof (rule call_invI [where b = b and lv = w])
    show "fst c \<in> set (pendingWrites s')" by (rule pw [OF c1])
    show "batches s' (fst c) = Some b" using own c2 by simp
    show "flushed b" by (rule c3)
    show "snd c = flushed_operations b w" by (rule c4)
    show "w \<le> lastVersion s'" using c5 lv by simp
  next
    fix q b' e
    assume a: "batches s' q = Some b'" "q \<le> fst c" "e \<in> set (entries b')"
    from others [OF a(1)] a(2) have "batches s q = Some b'" by auto
    from c6 [OF this a(2,3)] show "op_version (snd e) \<le> w" .
  next
    fix q b'
    assume a: "batches s' q = Some b'" "\<not> flushed b'"
    from others [OF a(1)] show "fst c < q"
    proof
      assume "batches s q = Some b'"
      from c7 [OF this a(2)] show ?thesis .
    qed
  qed
qed

text \<open>the initial state\<close>

lemma batcher_inv_registered: "batcher_inv (registered v tbl)"
  by (rule batcher_invI) (simp_all add: registered_def)

text \<open>lastVersion grows\<close>

lemma batch_inv_lastVersion:
  assumes "batch_inv s p b" and "lastVersion s \<le> lv"
  shows "batch_inv (s\<lparr> lastVersion := lv \<rparr>) p b"
proof -
  from assms(1) have "\<forall>e \<in> set (entries b). op_version (snd e) \<le> lastVersion s"
    by (simp add: batch_inv_def)
  with assms(2) have "\<forall>e \<in> set (entries b). op_version (snd e) \<le> lv"
    by (meson order_trans)
  with assms(1) show ?thesis by (simp add: batch_inv_def)
qed

lemma call_inv_lastVersion:
  "call_inv s c \<Longrightarrow> lastVersion s \<le> lv \<Longrightarrow> call_inv (s\<lparr> lastVersion := lv \<rparr>) c"
  by (erule call_inv_transfer) simp_all

lemma batcher_inv_lastVersion:
  assumes "batcher_inv s" and "lastVersion s \<le> lv"
  shows "batcher_inv (s\<lparr> lastVersion := lv \<rparr>)"
proof (rule batcher_invI)
  fix p b assume "batches (s\<lparr> lastVersion := lv \<rparr>) p = Some b"
  then have "batch_inv s p b" using batcher_inv_batch [OF assms(1)] by simp
  then show "batch_inv (s\<lparr> lastVersion := lv \<rparr>) p b" by (rule batch_inv_lastVersion [OF _ assms(2)])
next
  fix c assume "c \<in> set (in_flight (s\<lparr> lastVersion := lv \<rparr>))"
  then have "call_inv s c" using batcher_inv_call [OF assms(1)] by simp
  then show "call_inv (s\<lparr> lastVersion := lv \<rparr>) c" by (rule call_inv_lastVersion [OF _ assms(2)])
qed (use batcher_inv_rest [OF assms(1)] in simp_all)

text \<open>opening a batch\<close>

lemma batcher_inv_open_batch:
  assumes inv: "batcher_inv s" and cur: "currentWriteBatch s = None"
  shows "batcher_inv (open_batch s)"
proof -
  define p where "p = next_batch s"
  define new :: "'a write_batch" where
    "new = \<lparr> entries = [], writes = 0, writeSize = 0, committing = False,
             flushed = False, lastWriteCompletion = writeCompletion s \<rparr>"
  have eq: "open_batch s = s\<lparr> batches := (batches s)(p \<mapsto> new), pendingWrites := pendingWrites s @ [p],
             currentWriteBatch := Some p, writeCompletion := Some p, next_batch := Suc p \<rparr>"
    by (simp add: open_batch_def p_def new_def Let_def)
  have below: "\<And>q. q \<in> set (pendingWrites s) \<Longrightarrow> q < p"
    using batcher_inv_rest(2) [OF inv] by (simp add: p_def)
  show ?thesis
    unfolding eq
  proof (rule batcher_invI)
    fix q c
    assume "batches (s\<lparr> batches := (batches s)(p \<mapsto> new), pendingWrites := pendingWrites s @ [p],
             currentWriteBatch := Some p, writeCompletion := Some p, next_batch := Suc p \<rparr>) q = Some c"
    then have qc: "((batches s)(p \<mapsto> new)) q = Some c" by simp
    show "batch_inv (s\<lparr> batches := (batches s)(p \<mapsto> new), pendingWrites := pendingWrites s @ [p],
             currentWriteBatch := Some p, writeCompletion := Some p, next_batch := Suc p \<rparr>) q c"
    proof (cases "q = p")
      case True
      with qc have "c = new" by simp
      then show ?thesis using True by (simp add: batch_inv_def new_def)
    next
      case False
      with qc have "batches s q = Some c" by simp
      then have "batch_inv s q c" by (rule batcher_inv_batch [OF inv])
      then show ?thesis using False cur by (simp add: batch_inv_def p_def)
    qed
  next
    fix c
    assume "c \<in> set (in_flight (s\<lparr> batches := (batches s)(p \<mapsto> new), pendingWrites := pendingWrites s @ [p],
             currentWriteBatch := Some p, writeCompletion := Some p, next_batch := Suc p \<rparr>))"
    then have c: "c \<in> set (in_flight s)" by simp
    have ci: "call_inv s c" by (rule batcher_inv_call [OF inv c])
    then have lt: "fst c < p" using below by (elim call_invE) blast
    from ci show "call_inv (s\<lparr> batches := (batches s)(p \<mapsto> new), pendingWrites := pendingWrites s @ [p],
             currentWriteBatch := Some p, writeCompletion := Some p, next_batch := Suc p \<rparr>) c"
    proof (rule call_inv_transfer)
      fix q b'
      assume "batches (s\<lparr> batches := (batches s)(p \<mapsto> new), pendingWrites := pendingWrites s @ [p],
             currentWriteBatch := Some p, writeCompletion := Some p, next_batch := Suc p \<rparr>) q = Some b'"
      then have "((batches s)(p \<mapsto> new)) q = Some b'" by simp
      with lt show "batches s q = Some b' \<or> fst c < q" by (cases "q = p") simp_all
    qed (use lt in simp_all)
  next
    show "distinct (pendingWrites (s\<lparr> batches := (batches s)(p \<mapsto> new), pendingWrites := pendingWrites s @ [p],
             currentWriteBatch := Some p, writeCompletion := Some p, next_batch := Suc p \<rparr>))"
      using batcher_inv_rest(1) [OF inv] below by auto
  next
    fix q
    assume "q \<in> set (pendingWrites (s\<lparr> batches := (batches s)(p \<mapsto> new), pendingWrites := pendingWrites s @ [p],
             currentWriteBatch := Some p, writeCompletion := Some p, next_batch := Suc p \<rparr>))"
    then show "q < next_batch (s\<lparr> batches := (batches s)(p \<mapsto> new), pendingWrites := pendingWrites s @ [p],
             currentWriteBatch := Some p, writeCompletion := Some p, next_batch := Suc p \<rparr>)"
      using below less_Suc_eq by fastforce
  qed (use batcher_inv_rest [OF inv] in simp_all)
qed

text \<open>replacing the open batch\<close>

lemma batcher_inv_update:
  assumes inv: "batcher_inv s" and b: "batches s p = Some b" and nf: "\<not> flushed b"
    and b': "batch_inv s p b'"
  shows "batcher_inv (s\<lparr> batches := (batches s)(p \<mapsto> b') \<rparr>)"
proof (rule batcher_invI)
  fix q c
  assume "batches (s\<lparr> batches := (batches s)(p \<mapsto> b') \<rparr>) q = Some c"
  then have qc: "((batches s)(p \<mapsto> b')) q = Some c" by simp
  show "batch_inv (s\<lparr> batches := (batches s)(p \<mapsto> b') \<rparr>) q c"
  proof (cases "q = p")
    case True
    with qc have "c = b'" by simp
    with b' True show ?thesis by (simp add: batch_inv_def)
  next
    case False
    with qc have "batches s q = Some c" by simp
    then have "batch_inv s q c" by (rule batcher_inv_batch [OF inv])
    then show ?thesis by (simp add: batch_inv_def)
  qed
next
  fix c
  assume "c \<in> set (in_flight (s\<lparr> batches := (batches s)(p \<mapsto> b') \<rparr>))"
  then have c: "c \<in> set (in_flight s)" by simp
  have ci: "call_inv s c" by (rule batcher_inv_call [OF inv c])
  have lt: "fst c < p" by (rule in_flight_below [OF inv c b nf])
  from ci show "call_inv (s\<lparr> batches := (batches s)(p \<mapsto> b') \<rparr>) c"
  proof (rule call_inv_transfer)
    fix q c'
    assume "batches (s\<lparr> batches := (batches s)(p \<mapsto> b') \<rparr>) q = Some c'"
    then have "((batches s)(p \<mapsto> b')) q = Some c'" by simp
    with lt show "batches s q = Some c' \<or> fst c < q" by (cases "q = p") simp_all
  qed (use lt in simp_all)
qed (use batcher_inv_rest [OF inv] in simp_all)

text \<open>handing a batch to the engine\<close>

lemma batcher_inv_flushed:
  assumes inv: "batcher_inv s" and b: "batches s p = Some b" and nf: "\<not> flushed b"
    and f': "flushed b'" and c': "committing b'"
    and len: "length (entries b') \<le> writes b'"
    and w: "lastWriteCompletion b' = None \<longrightarrow> writes b' \<le> 102"
    and vs: "\<forall>e \<in> set (entries b'). op_version (snd e) \<le> lastVersion s"
  shows "batcher_inv (s\<lparr> batches := (batches s)(p \<mapsto> b'), currentWriteBatch := None,
            in_flight := in_flight s @ [(p, flushed_operations b' (lastVersion s))] \<rparr>)"
    (is "batcher_inv ?s'")
proof -
  have old: "batch_inv s p b" by (rule batcher_inv_batch [OF inv b])
  have cur: "currentWriteBatch s = Some p" using old nf by (simp add: batch_inv_def)
  have pin: "p \<in> set (pendingWrites s)" using old nf by (simp add: batch_inv_def)
  have others: "flushed c" if "batches s q = Some c" and "q \<noteq> p" for q c
  proof -
    have "batch_inv s q c" by (rule batcher_inv_batch [OF inv that(1)])
    with cur that(2) show ?thesis by (auto simp: batch_inv_def)
  qed
  have bs: "batches ?s' = (batches s)(p \<mapsto> b')" by simp
  show ?thesis
  proof (rule batcher_invI)
    fix q c
    assume "batches ?s' q = Some c"
    then have qc: "((batches s)(p \<mapsto> b')) q = Some c" by simp
    show "batch_inv ?s' q c"
    proof (cases "q = p")
      case True
      with qc have "c = b'" by simp
      with old True f' c' len w vs show ?thesis by (simp add: batch_inv_def)
    next
      case False
      with qc have q: "batches s q = Some c" by simp
      then have "batch_inv s q c" by (rule batcher_inv_batch [OF inv])
      moreover have "flushed c" by (rule others [OF q False])
      ultimately show ?thesis by (simp add: batch_inv_def)
    qed
  next
    fix c
    assume "c \<in> set (in_flight ?s')"
    then consider "c \<in> set (in_flight s)" | "c = (p, flushed_operations b' (lastVersion s))"
      by auto
    then show "call_inv ?s' c"
    proof cases
      case 1
      have ci: "call_inv s c" by (rule batcher_inv_call [OF inv 1])
      have lt: "fst c < p" by (rule in_flight_below [OF inv 1 b nf])
      from ci show ?thesis
      proof (rule call_inv_transfer)
        fix q c'
        assume "batches ?s' q = Some c'"
        then have "((batches s)(p \<mapsto> b')) q = Some c'" by simp
        with lt show "batches s q = Some c' \<or> fst c < q" by (cases "q = p") simp_all
      qed (use lt in simp_all)
    next
      case 2
      show ?thesis
      proof (rule call_invI [where b = b' and lv = "lastVersion s"])
        show "fst c \<in> set (pendingWrites ?s')" using 2 pin by simp
        show "batches ?s' (fst c) = Some b'" using 2 by simp
        show "flushed b'" by (rule f')
        show "snd c = flushed_operations b' (lastVersion s)" using 2 by simp
        show "lastVersion s \<le> lastVersion ?s'" by simp
      next
        fix q c' e
        assume a: "batches ?s' q = Some c'" "e \<in> set (entries c')"
        then have qc: "((batches s)(p \<mapsto> b')) q = Some c'" by simp
        show "op_version (snd e) \<le> lastVersion s"
        proof (cases "q = p")
          case True
          with qc have "c' = b'" by simp
          with vs a(2) show ?thesis by blast
        next
          case False
          with qc have "batches s q = Some c'" by simp
          then have "batch_inv s q c'" by (rule batcher_inv_batch [OF inv])
          with a(2) show ?thesis by (simp add: batch_inv_def)
        qed
      next
        fix q c'
        assume a: "batches ?s' q = Some c'" "\<not> flushed c'"
        then have qc: "((batches s)(p \<mapsto> b')) q = Some c'" by simp
        have "flushed c'"
        proof (cases "q = p")
          case True
          with qc f' show ?thesis by simp
        next
          case False
          with qc have "batches s q = Some c'" by simp
          then show ?thesis using False by (rule others)
        qed
        with a(2) show "fst c < q" by simp
      qed
    qed
  next
    have "p \<notin> fst ` set (in_flight s)"
      using in_flight_flushed [OF inv] b nf by auto
    then show "distinct (map fst (in_flight ?s'))"
      using batcher_inv_rest(3) [OF inv] by simp
  qed (use batcher_inv_rest [OF inv] in simp_all)
qed

text \<open>the engine settles a batch\<close>

lemma batcher_inv_settled:
  assumes inv: "batcher_inv s"
  shows "batcher_inv (batch_settled p ok s)"
proof (cases "map_of (in_flight s) p")
  case None
  then show ?thesis using inv by (simp add: batch_settled_def)
next
  case (Some ops)
  then have mem: "(p, ops) \<in> set (in_flight s)" by (rule map_of_SomeD)
  have ci: "call_inv s (p, ops)" by (rule batcher_inv_call [OF inv mem])
  then obtain b where pin: "p \<in> set (pendingWrites s)" and b: "batches s p = Some b" "flushed b"
    by (elim call_invE) simp
  have d: "distinct (pendingWrites s)" by (rule batcher_inv_rest(1) [OF inv])
  have pw: "set (splice_out p (pendingWrites s)) = set (pendingWrites s) - {p}"
    using pin d by (simp add: splice_out_def)
  have fields: "batches (batch_settled p ok s) = batches s"
    "next_batch (batch_settled p ok s) = next_batch s"
    "currentWriteBatch (batch_settled p ok s) = currentWriteBatch s"
    "lastVersion (batch_settled p ok s) = lastVersion s"
    "rejected (batch_settled p ok s) = rejected s"
    "pendingWrites (batch_settled p ok s) = splice_out p (pendingWrites s)"
    "in_flight (batch_settled p ok s) = filter (\<lambda>c. fst c \<noteq> p) (in_flight s)"
    using Some by (simp_all add: batch_settled_def Let_def)
  show ?thesis
  proof (rule batcher_invI)
    fix q c
    assume "batches (batch_settled p ok s) q = Some c"
    then have qc: "batches s q = Some c" by (simp add: fields)
    then have bi: "batch_inv s q c" by (rule batcher_inv_batch [OF inv])
    have "\<not> flushed c \<longrightarrow> q \<noteq> p" using qc b by auto
    with bi show "batch_inv (batch_settled p ok s) q c"
      by (simp add: batch_inv_def fields pw)
  next
    fix c
    assume "c \<in> set (in_flight (batch_settled p ok s))"
    then have c: "c \<in> set (in_flight s)" and np: "fst c \<noteq> p" by (simp_all add: fields)
    have "call_inv s c" by (rule batcher_inv_call [OF inv c])
    then show "call_inv (batch_settled p ok s) c"
      by (rule call_inv_transfer) (use np in \<open>simp_all add: fields pw\<close>)
  next
    show "distinct (pendingWrites (batch_settled p ok s))"
      using d pin by (simp add: fields splice_out_def)
  next
    fix q assume "q \<in> set (pendingWrites (batch_settled p ok s))"
    then show "q < next_batch (batch_settled p ok s)"
      using batcher_inv_rest(2) [OF inv] by (simp add: fields pw)
  next
    show "distinct (map fst (in_flight (batch_settled p ok s)))"
      using batcher_inv_rest(3) [OF inv] by (simp add: fields distinct_map_filter)
  next
    show "rejected (batch_settled p ok s) = {}"
      using batcher_inv_rest(4) [OF inv] by (simp add: fields)
  qed
qed

text \<open>\<^verbatim>\<open>commitOperations\<close> of a batch\<close>

lemma batch_commitOperations_cases:
  assumes "batches s p = Some b"
  shows "committing b \<Longrightarrow> batch_commitOperations p s = s"
    and "\<not> committing b \<Longrightarrow> lastWriteCompletion b = Some q \<Longrightarrow>
           batch_commitOperations p s = s\<lparr> batches := (batches s)(p \<mapsto> b\<lparr> committing := True \<rparr>) \<rparr>"
    and "\<not> committing b \<Longrightarrow> lastWriteCompletion b = None \<Longrightarrow>
           batch_commitOperations p s =
             s\<lparr> batches := (batches s)(p \<mapsto> b\<lparr> committing := True, flushed := True \<rparr>),
                currentWriteBatch := None,
                in_flight := in_flight s @
                  [(p, flushed_operations (b\<lparr> committing := True, flushed := True \<rparr>) (lastVersion s))] \<rparr>"
  using assms
  by (simp_all add: batch_commitOperations_def flush_def Let_def flushed_operations_def)

lemma batcher_inv_commit:
  assumes inv: "batcher_inv s"
  shows "batcher_inv (batch_commitOperations p s)"
proof (cases "batches s p")
  case None
  then show ?thesis using inv by (simp add: batch_commitOperations_def)
next
  case (Some b)
  have bi: "batch_inv s p b" by (rule batcher_inv_batch [OF inv Some])
  show ?thesis
  proof (cases "committing b")
    case True
    then show ?thesis using batch_commitOperations_cases(1) [OF Some] inv by simp
  next
    case False
    with bi have nf: "\<not> flushed b" by (auto simp: batch_inv_def)
    show ?thesis
    proof (cases "lastWriteCompletion b")
      case None
      have "batcher_inv (s\<lparr> batches := (batches s)(p \<mapsto> b\<lparr> committing := True, flushed := True \<rparr>),
                currentWriteBatch := None,
                in_flight := in_flight s @
                  [(p, flushed_operations (b\<lparr> committing := True, flushed := True \<rparr>) (lastVersion s))] \<rparr>)"
        using bi False by (intro batcher_inv_flushed [OF inv Some nf]) (simp_all add: batch_inv_def)
      then show ?thesis using batch_commitOperations_cases(3) [OF Some False None] by simp
    next
      case (Some q)
      have "batch_inv s p (b\<lparr> committing := True \<rparr>)"
        using bi Some nf by (simp add: batch_inv_def)
      then have "batcher_inv (s\<lparr> batches := (batches s)(p \<mapsto> b\<lparr> committing := True \<rparr>) \<rparr>)"
        by (rule batcher_inv_update [OF inv \<open>batches s p = Some b\<close> nf])
      then show ?thesis
        using batch_commitOperations_cases(2) [OF \<open>batches s p = Some b\<close> False Some] by simp
    qed
  qed
qed

text \<open>recording a write\<close>

lemma length_map_set: "length (map_set k v m) \<le> Suc (length m)"
  by (induction m) auto

lemma set_map_set: "set (map_set k v m) \<subseteq> insert (k, v) (set m)"
  by (induction m) auto

lemma counted_fields [simp]:
  "flushed (counted tbk key value v b) = flushed b"
  "committing (counted tbk key value v b) = committing b"
  "lastWriteCompletion (counted tbk key value v b) = lastWriteCompletion b"
  "writes (counted tbk key value v b) = Suc (writes b)"
  by (simp_all add: counted_def)

lemma counted_length:
  "length (entries b) \<le> writes b \<Longrightarrow>
     length (entries (counted tbk key value v b)) \<le> writes (counted tbk key value v b)"
  using length_map_set [of key _ "entries b"] by (simp add: counted_def) (meson le_trans not_less_eq_eq)

lemma counted_versions:
  assumes "\<forall>e \<in> set (entries b). op_version (snd e) \<le> lv" and "v \<le> lv"
  shows "\<forall>e \<in> set (entries (counted tbk key value v b)). op_version (snd e) \<le> lv"
proof
  fix e assume "e \<in> set (entries (counted tbk key value v b))"
  then have "e \<in> insert (key, \<lparr> op_key = tbk key, op_value = value, op_version = v \<rparr>) (set (entries b))"
    using set_map_set by (fastforce simp: counted_def)
  with assms show "op_version (snd e) \<le> lv" by auto
qed

lemma counted_size:
  assumes "\<not> over_limit value b" and "writeSize b \<le> 100000"
  shows "writeSize (counted tbk key value v b) \<le> 100000" and "writes b \<le> 100"
  using assms by (auto simp: counted_def over_limit_def split: option.splits)

lemma counted_inv:
  assumes bi: "batch_inv s p b" and nf: "\<not> flushed b" and v: "v \<le> lastVersion s"
    and c: "\<not> over_limit value b \<or> committing b"
  shows "batch_inv s p (counted tbk key value v b)"
proof -
  have len: "length (entries (counted tbk key value v b)) \<le> writes (counted tbk key value v b)"
    using bi by (intro counted_length) (simp add: batch_inv_def)
  have vs: "\<forall>e \<in> set (entries (counted tbk key value v b)). op_version (snd e) \<le> lastVersion s"
    using bi v by (intro counted_versions) (simp_all add: batch_inv_def)
  have sz: "\<not> committing b \<longrightarrow> Suc (writes b) \<le> 101 \<and> writeSize (counted tbk key value v b) \<le> 100000"
  proof
    assume nc: "\<not> committing b"
    with c have nl: "\<not> over_limit value b" by simp
    from nc bi have "writeSize b \<le> 100000" by (simp add: batch_inv_def)
    from counted_size [OF nl this] show "Suc (writes b) \<le> 101 \<and> writeSize (counted tbk key value v b) \<le> 100000"
      by simp
  qed
  have w: "lastWriteCompletion b = None \<longrightarrow> Suc (writes b) \<le> 102"
  proof
    assume n: "lastWriteCompletion b = None"
    with bi nf have "\<not> committing b" by (auto simp: batch_inv_def)
    with sz show "Suc (writes b) \<le> 102" by simp
  qed
  from bi nf len vs sz w show ?thesis by (simp add: batch_inv_def)
qed

lemma counted_commit_inv:
  assumes bi: "batch_inv s p b" and nf: "\<not> flushed b" and v: "v \<le> lastVersion s"
    and l: "lastWriteCompletion b \<noteq> None"
  shows "batch_inv s p ((counted tbk key value v b)\<lparr> committing := True \<rparr>)"
proof -
  have len: "length (entries (counted tbk key value v b)) \<le> writes (counted tbk key value v b)"
    using bi by (intro counted_length) (simp add: batch_inv_def)
  have vs: "\<forall>e \<in> set (entries (counted tbk key value v b)). op_version (snd e) \<le> lastVersion s"
    using bi v by (intro counted_versions) (simp_all add: batch_inv_def)
  from bi nf len vs l show ?thesis by (auto simp: batch_inv_def)
qed

lemma batcher_inv_record_write:
  assumes inv: "batcher_inv s" and cur: "currentWriteBatch s = Some p" and v: "v \<le> lastVersion s"
  shows "batcher_inv (record_write tbk p key value v s)"
proof (cases "batches s p")
  case None
  then show ?thesis using inv by (simp add: record_write_def)
next
  case (Some b)
  define b3 where "b3 = counted tbk key value v b"
  define s3 where "s3 = s\<lparr> batches := (batches s)(p \<mapsto> b3) \<rparr>"
  have bi: "batch_inv s p b" by (rule batcher_inv_batch [OF inv Some])
  with cur have nf: "\<not> flushed b" by (simp add: batch_inv_def)
  have s3p: "batches s3 p = Some b3" by (simp add: s3_def)
  have rw: "record_write tbk p key value v s =
              (if over_limit value b then batch_commitOperations p s3 else s3)"
    using Some by (simp add: record_write_def s3_def b3_def Let_def)
  show ?thesis
  proof (cases "\<not> over_limit value b \<or> committing b")
    case True
    have "batch_inv s p b3" unfolding b3_def by (rule counted_inv [OF bi nf v True])
    then have i3: "batcher_inv s3" unfolding s3_def by (rule batcher_inv_update [OF inv Some nf])
    have "record_write tbk p key value v s = s3"
    proof (cases "over_limit value b")
      case False
      then show ?thesis by (simp add: rw)
    next
      case ol: True
      with True have "committing b3" by (simp add: b3_def)
      from batch_commitOperations_cases(1) [OF s3p this] ol show ?thesis by (simp add: rw)
    qed
    with i3 show ?thesis by simp
  next
    case False
    then have ol: "over_limit value b" and nc: "\<not> committing b" by simp_all
    then have nc3: "\<not> committing b3" by (simp add: b3_def)
    show ?thesis
    proof (cases "lastWriteCompletion b")
      case (Some q)
      then have l3: "lastWriteCompletion b3 = Some q" by (simp add: b3_def)
      have "batch_inv s p (b3\<lparr> committing := True \<rparr>)"
        unfolding b3_def using Some by (intro counted_commit_inv [OF bi nf v]) simp
      then have "batcher_inv (s\<lparr> batches := (batches s)(p \<mapsto> b3\<lparr> committing := True \<rparr>) \<rparr>)"
        by (rule batcher_inv_update [OF inv \<open>batches s p = Some b\<close> nf])
      moreover have "record_write tbk p key value v s
                      = s\<lparr> batches := (batches s)(p \<mapsto> b3\<lparr> committing := True \<rparr>) \<rparr>"
        using batch_commitOperations_cases(2) [OF s3p nc3 l3] ol by (simp add: rw s3_def)
      ultimately show ?thesis by simp
    next
      case None
      then have l3: "lastWriteCompletion b3 = None" by (simp add: b3_def)
      define b4 where "b4 = b3\<lparr> committing := True, flushed := True \<rparr>"
      have w: "writes b \<le> 101" using bi nc by (simp add: batch_inv_def)
      have len: "length (entries b3) \<le> writes b3"
        unfolding b3_def using bi by (intro counted_length) (simp add: batch_inv_def)
      have vs: "\<forall>e \<in> set (entries b3). op_version (snd e) \<le> lastVersion s"
        unfolding b3_def using bi v by (intro counted_versions) (simp_all add: batch_inv_def)
      have "batcher_inv (s\<lparr> batches := (batches s)(p \<mapsto> b4), currentWriteBatch := None,
            in_flight := in_flight s @ [(p, flushed_operations b4 (lastVersion s))] \<rparr>)"
        using len vs w
        by (intro batcher_inv_flushed [OF inv Some nf]) (simp_all add: b4_def b3_def)
      moreover have "record_write tbk p key value v s
           = s\<lparr> batches := (batches s)(p \<mapsto> b4), currentWriteBatch := None,
                in_flight := in_flight s @ [(p, flushed_operations b4 (lastVersion s))] \<rparr>"
        using batch_commitOperations_cases(3) [OF s3p nc3 l3] ol by (simp add: rw s3_def b4_def)
      ultimately show ?thesis by simp
    qed
  qed
qed

lemma open_batch_current: "currentWriteBatch (open_batch s) = Some (next_batch s)"
  by (simp add: open_batch_def Let_def)

lemma open_batch_lastVersion [simp]: "lastVersion (open_batch s) = lastVersion s"
  by (simp add: open_batch_def Let_def)

lemma batcher_inv_dbPut:
  assumes inv: "batcher_inv s"
  shows "batcher_inv (snd (dbPut tbk key value version nextVersion s))"
proof -
  define v where "v = effective_version version nextVersion"
  define s1 where "s1 = s\<lparr> lastVersion := max (lastVersion s) v \<rparr>"
  define s2 where "s2 = (if currentWriteBatch s1 = None then open_batch s1 else s1)"
  have i1: "batcher_inv s1" unfolding s1_def by (rule batcher_inv_lastVersion [OF inv]) simp
  have i2: "batcher_inv s2" unfolding s2_def using i1 batcher_inv_open_batch by auto
  have v2: "v \<le> lastVersion s2" by (simp add: s2_def s1_def)
  have eq: "snd (dbPut tbk key value version nextVersion s)
      = (case currentWriteBatch s2 of None \<Rightarrow> s2 | Some p \<Rightarrow> record_write tbk p key value v s2)"
    unfolding dbPut_def Let_def v_def s1_def s2_def by simp
  show ?thesis
  proof (cases "currentWriteBatch s2")
    case None
    with i2 eq show ?thesis by simp
  next
    case (Some p)
    from batcher_inv_record_write [OF i2 Some v2] eq Some show ?thesis by simp
  qed
qed

lemma batcher_inv_step:
  assumes inv: "batcher_inv s"
  shows "batcher_inv (batcher_step tbk ev s)"
proof (cases ev)
  case (DbPut key val version nextVersion)
  then show ?thesis using batcher_inv_dbPut [OF inv] by simp
next
  case (Timer p)
  then show ?thesis using batcher_inv_commit [OF inv] by simp
next
  case (Deferred p)
  show ?thesis
  proof (cases "batches s p")
    case None
    with Deferred inv show ?thesis by simp
  next
    case (Some b)
    have bi: "batch_inv s p b" by (rule batcher_inv_batch [OF inv Some])
    show ?thesis
    proof (cases "\<exists>q. lastWriteCompletion b = Some q \<and> committing b \<and> \<not> flushed b \<and> q \<in> resolved s")
      case False
      with Deferred Some inv show ?thesis by (auto split: option.splits)
    next
      case True
      then obtain q where q: "lastWriteCompletion b = Some q" "committing b" "\<not> flushed b" "q \<in> resolved s"
        by blast
      have "batcher_inv (s\<lparr> batches := (batches s)(p \<mapsto> b\<lparr> flushed := True \<rparr>), currentWriteBatch := None,
            in_flight := in_flight s @ [(p, flushed_operations (b\<lparr> flushed := True \<rparr>) (lastVersion s))] \<rparr>)"
        using bi q by (intro batcher_inv_flushed [OF inv Some]) (simp_all add: batch_inv_def)
      moreover have "batcher_step tbk ev s = s\<lparr> batches := (batches s)(p \<mapsto> b\<lparr> flushed := True \<rparr>), currentWriteBatch := None,
            in_flight := in_flight s @ [(p, flushed_operations (b\<lparr> flushed := True \<rparr>) (lastVersion s))] \<rparr>"
        using Deferred Some q by (simp add: flush_def Let_def flushed_operations_def)
      ultimately show ?thesis by simp
    qed
  qed
next
  case (Settled p ok)
  then show ?thesis using batcher_inv_settled [OF inv] by simp
next
  case Reset_failed
  have "batcher_inv (s\<lparr> onDbFailure_called := True \<rparr>)"
  proof (rule batcher_invI)
    fix p b assume "batches (s\<lparr> onDbFailure_called := True \<rparr>) p = Some b"
    then have "batch_inv s p b" using batcher_inv_batch [OF inv] by simp
    then show "batch_inv (s\<lparr> onDbFailure_called := True \<rparr>) p b" by (simp add: batch_inv_def)
  next
    fix c assume "c \<in> set (in_flight (s\<lparr> onDbFailure_called := True \<rparr>))"
    then have "call_inv s c" using batcher_inv_call [OF inv] by simp
    then show "call_inv (s\<lparr> onDbFailure_called := True \<rparr>) c"
      by (rule call_inv_transfer) simp_all
  qed (use batcher_inv_rest [OF inv] in simp_all)
  with Reset_failed show ?thesis by simp
qed

lemma batcher_inv_run: "batcher_inv s \<Longrightarrow> batcher_inv (batcher_run tbk evs s)"
  by (induction evs arbitrary: s) (simp_all add: batcher_inv_step)















lemma lastVersion_flush [simp]: "lastVersion (flush p s) = lastVersion s"
  by (simp add: flush_def Let_def split: option.splits)

lemma lastVersion_commit [simp]: "lastVersion (batch_commitOperations p s) = lastVersion s"
  by (simp add: batch_commitOperations_def Let_def split: option.splits)

lemma lastVersion_record_write [simp]:
  "lastVersion (record_write tbk p key val v s) = lastVersion s"
  by (simp add: record_write_def Let_def split: option.splits)

lemma lastVersion_settled [simp]: "lastVersion (batch_settled p ok s) = lastVersion s"
  by (simp add: batch_settled_def Let_def split: option.splits)









text \<open>
  C7, as the code has it. When the engine rejects a batch, in any state the batcher reaches:
  the batch's completion is resolved, and no completion is ever rejected; the batch leaves
  \<^verbatim>\<open>pendingWrites\<close> and the unsettled calls; \<^verbatim>\<open>writeCompletion\<close> is reset when it still
  is this batch's completion, and kept when a later batch has been opened; the error is
  logged, the table is unchanged, and \<^verbatim>\<open>onDbFailure\<close> is not called.
\<close>

theorem failed_batch_resolves:
  "\<forall>p ops. map_of (in_flight (batcher_run tbk evs (registered v0 tbl))) p = Some ops \<longrightarrow>
     p \<in> resolved (batch_settled p False (batcher_run tbk evs (registered v0 tbl)))
     \<and> rejected (batch_settled p False (batcher_run tbk evs (registered v0 tbl))) = {}
     \<and> p \<in> set (pendingWrites (batcher_run tbk evs (registered v0 tbl)))
     \<and> set (pendingWrites (batch_settled p False (batcher_run tbk evs (registered v0 tbl))))
         = set (pendingWrites (batcher_run tbk evs (registered v0 tbl))) - {p}
     \<and> p \<notin> fst ` set (in_flight (batch_settled p False (batcher_run tbk evs (registered v0 tbl))))
     \<and> writeCompletion (batch_settled p False (batcher_run tbk evs (registered v0 tbl)))
         = (if writeCompletion (batcher_run tbk evs (registered v0 tbl)) = Some p then None
            else writeCompletion (batcher_run tbk evs (registered v0 tbl)))
     \<and> console_errors (batch_settled p False (batcher_run tbk evs (registered v0 tbl)))
         = Suc (console_errors (batcher_run tbk evs (registered v0 tbl)))
     \<and> table (batch_settled p False (batcher_run tbk evs (registered v0 tbl)))
         = table (batcher_run tbk evs (registered v0 tbl))
     \<and> onDbFailure_called (batch_settled p False (batcher_run tbk evs (registered v0 tbl)))
         = onDbFailure_called (batcher_run tbk evs (registered v0 tbl))"
proof (intro allI impI)
  fix p ops
  define s where "s = batcher_run tbk evs (registered v0 tbl)"
  assume "map_of (in_flight (batcher_run tbk evs (registered v0 tbl))) p = Some ops"
  then have m: "map_of (in_flight s) p = Some ops" by (simp add: s_def)
  have inv: "batcher_inv s"
    unfolding s_def by (rule batcher_inv_run [OF batcher_inv_registered])
  have mem: "(p, ops) \<in> set (in_flight s)" by (rule map_of_SomeD [OF m])
  have pin: "p \<in> set (pendingWrites s)"
    using batcher_inv_call [OF inv mem] by (elim call_invE) simp
  have d: "distinct (pendingWrites s)" by (rule batcher_inv_rest(1) [OF inv])
  have rj: "rejected s = {}" by (rule batcher_inv_rest(4) [OF inv])
  have pw: "set (splice_out p (pendingWrites s)) = set (pendingWrites s) - {p}"
    using pin d by (simp add: splice_out_def)
  have "p \<in> resolved (batch_settled p False s)
     \<and> rejected (batch_settled p False s) = {}
     \<and> p \<in> set (pendingWrites s)
     \<and> set (pendingWrites (batch_settled p False s)) = set (pendingWrites s) - {p}
     \<and> p \<notin> fst ` set (in_flight (batch_settled p False s))
     \<and> writeCompletion (batch_settled p False s)
         = (if writeCompletion s = Some p then None else writeCompletion s)
     \<and> console_errors (batch_settled p False s) = Suc (console_errors s)
     \<and> table (batch_settled p False s) = table s
     \<and> onDbFailure_called (batch_settled p False s) = onDbFailure_called s"
    using m pin pw rj by (auto simp: batch_settled_def Let_def)
  then show "p \<in> resolved (batch_settled p False (batcher_run tbk evs (registered v0 tbl)))
     \<and> rejected (batch_settled p False (batcher_run tbk evs (registered v0 tbl))) = {}
     \<and> p \<in> set (pendingWrites (batcher_run tbk evs (registered v0 tbl)))
     \<and> set (pendingWrites (batch_settled p False (batcher_run tbk evs (registered v0 tbl))))
         = set (pendingWrites (batcher_run tbk evs (registered v0 tbl))) - {p}
     \<and> p \<notin> fst ` set (in_flight (batch_settled p False (batcher_run tbk evs (registered v0 tbl))))
     \<and> writeCompletion (batch_settled p False (batcher_run tbk evs (registered v0 tbl)))
         = (if writeCompletion (batcher_run tbk evs (registered v0 tbl)) = Some p then None
            else writeCompletion (batcher_run tbk evs (registered v0 tbl)))
     \<and> console_errors (batch_settled p False (batcher_run tbk evs (registered v0 tbl)))
         = Suc (console_errors (batcher_run tbk evs (registered v0 tbl)))
     \<and> table (batch_settled p False (batcher_run tbk evs (registered v0 tbl)))
         = table (batcher_run tbk evs (registered v0 tbl))
     \<and> onDbFailure_called (batch_settled p False (batcher_run tbk evs (registered v0 tbl)))
         = onDbFailure_called (batcher_run tbk evs (registered v0 tbl))"
    unfolding s_def .
qed

lemmas batcher_defs = dbPut_def record_write_def counted_def over_limit_def open_batch_def
  batch_commitOperations_def flush_def effective_version_def value_size_def registered_def
  batch_settled_def splice_out_def to_operation_def key_of_nat_def
  LAST_VERSION_IN_DB_KEY_def Let_def








lemma failing_run_state:
  "map_of (in_flight (batcher_run key_of_nat failing_run (registered 0 Map.empty))) 0
     = Some [Put [2, 1] (Str ''5,x''), Put [1, 2] (Num 5)]"
  "pendingWrites (batcher_run key_of_nat failing_run (registered 0 Map.empty)) = [0]"
  "writeCompletion (batcher_run key_of_nat failing_run (registered 0 Map.empty)) = Some 0"
  "console_errors (batcher_run key_of_nat failing_run (registered 0 Map.empty)) = 0"
  by (simp_all add: failing_run_def batcher_defs)

text \<open>A write and the timer, then the engine rejects the batch, for C7.\<close>

theorem failed_batch_resolves_witness:
  "map_of (in_flight (batcher_run key_of_nat failing_run (registered 0 Map.empty))) 0
     = Some [Put [2, 1] (Str ''5,x''), Put [1, 2] (Num 5)]
   \<and> 0 \<in> resolved (batch_settled 0 False (batcher_run key_of_nat failing_run (registered 0 Map.empty)))
   \<and> set (pendingWrites (batch_settled 0 False (batcher_run key_of_nat failing_run (registered 0 Map.empty)))) = {}
   \<and> writeCompletion (batch_settled 0 False (batcher_run key_of_nat failing_run (registered 0 Map.empty))) = None
   \<and> console_errors (batch_settled 0 False (batcher_run key_of_nat failing_run (registered 0 Map.empty))) = 1"
proof -
  define s where "s = batcher_run key_of_nat failing_run (registered 0 Map.empty)"
  note e = failing_run_state [folded s_def]
  from failed_batch_resolves [of key_of_nat failing_run 0 Map.empty, folded s_def] e(1)
  have "0 \<in> resolved (batch_settled 0 False s)
     \<and> rejected (batch_settled 0 False s) = {}
     \<and> 0 \<in> set (pendingWrites s)
     \<and> set (pendingWrites (batch_settled 0 False s)) = set (pendingWrites s) - {0}
     \<and> 0 \<notin> fst ` set (in_flight (batch_settled 0 False s))
     \<and> writeCompletion (batch_settled 0 False s)
         = (if writeCompletion s = Some 0 then None else writeCompletion s)
     \<and> console_errors (batch_settled 0 False s) = Suc (console_errors s)
     \<and> table (batch_settled 0 False s) = table s
     \<and> onDbFailure_called (batch_settled 0 False s) = onDbFailure_called s"
    by blast
  with e show ?thesis by (simp add: s_def)
qed

text \<open>
  C7 as stated fails: after the rejected batch \<^verbatim>\<open>onDbFailure\<close> has not been called (one
  error is logged and the completion is resolved); and when a second batch was opened while
  the first was with the engine, \<^verbatim>\<open>writeCompletion\<close> is still the second batch's
  completion after the first is rejected.
\<close>

theorem write_failure_not_signalled_counterexample:
  "onDbFailure_called (batcher_run key_of_nat (failing_run @ [Settled 0 False]) (registered 0 Map.empty))
     = False
   \<and> console_errors (batcher_run key_of_nat (failing_run @ [Settled 0 False]) (registered 0 Map.empty)) = 1
   \<and> resolved (batcher_run key_of_nat (failing_run @ [Settled 0 False]) (registered 0 Map.empty)) = {0}
   \<and> writeCompletion (batcher_run key_of_nat (overlapping_run @ [Settled 0 False]) (registered 0 Map.empty))
       = Some 1
   \<and> pendingWrites (batcher_run key_of_nat (overlapping_run @ [Settled 0 False]) (registered 0 Map.empty))
       = [1]"
  by (simp add: failing_run_def overlapping_run_def batcher_defs)

section \<open>Clearing the cache of an entity\<close>

lemma clearCache_fields:
  "inst_id (clearCache e) = inst_id e"
  "entity_version (clearCache e) = entity_version e"
  "asJSON (clearCache e) = None"
  "cachedValue (clearCache e) = None"
  "cachedVersion (clearCache e) = Some (- 1)"
  "readyState (clearCache e) =
     (if readyState e = Some Up_to_date \<or> readyState e = Some Invalidated
      then None else readyState e)"
  by (simp_all add: clearCache_def)

lemma get_value_agrees:
  assumes "cache_agrees env data e"
  shows "fst (get_value env e) = stored_value env data"
  using assms
  by (auto simp add: cache_agrees_def get_value_def stored_value_def
           split: option.splits if_splits)

lemma get_value_cleared: "fst (get_value env (clearCache e)) = None"
  by (simp add: get_value_def clearCache_def)

lemma load_defined:
  assumes "loadLocalData env s (inst_id e) = Some data"
  shows "\<exists>e'. loadLatestLocalData env nv s e = Some e'"
  using assms by (simp add: loadLatestLocalData_def)

lemma valueOf_ready:
  assumes "readyState e \<noteq> None"
  shows "valueOf env nv s e = Some (get_value env e)"
  using assms by (simp add: valueOf_def)

lemma valueOf_unloaded:
  assumes "readyState e = None" and "loadLatestLocalData env nv s e = Some e'"
  shows "valueOf env nv s e = Some (get_value env e')"
  using assms by (simp add: valueOf_def)

lemma valueOf_fresh_load:
  assumes ld: "loadLocalData env s (inst_id e) = Some data"
      and rs: "readyState e = None"
      and ag: "cache_agrees env data e"
  shows "map_option fst (valueOf env nv s e) = Some (stored_value env data)"
proof -
  from ld obtain e' where l: "loadLatestLocalData env nv s e = Some e'"
    using load_defined by blast
  have "fst (get_value env e') = stored_value env data"
    using ld l ag
    by (auto simp add: loadLatestLocalData_def get_value_def stored_value_def cache_agrees_def
             split: option.splits if_splits)
  with rs l show ?thesis by (simp add: valueOf_unloaded)
qed

lemma valueOf_reload_cleared:
  assumes ld: "loadLocalData env s (inst_id e) = Some data"
      and rs: "readyState (clearCache e) = None"
  shows "map_option fst (valueOf env nv s (clearCache e)) = Some (stored_value env data)"
proof -
  let ?c = "clearCache e"
  from ld have ld': "loadLocalData env s (inst_id ?c) = Some data"
    by (simp add: clearCache_fields)
  then obtain e' where l: "loadLatestLocalData env nv s ?c = Some e'"
    using load_defined by blast
  have "fst (get_value env e') = stored_value env data"
    using ld' l
    by (auto simp add: loadLatestLocalData_def get_value_def stored_value_def clearCache_def
             split: option.splits if_splits)
  with rs l show ?thesis by (simp add: valueOf_unloaded)
qed

subsection \<open>The concrete class\<close>

lemma set_value_new:
  "set_value unary_codec (Some ''{}'') new_entity =
     (\<lparr> inst_id = IdNumber 7, readyState = Some Loading_local_data,
        asJSON = Some ''{}'', cachedValue = Some ''{}'', cachedVersion = None,
        entity_version = Some 3 \<rparr>,
      Some (IdNumber 7, Some ''111,{}'', Some 3))"
  by (simp add: set_value_def new_entity_def unary_codec_def Let_def numeral_3_eq_3)

lemma written_entity_eval:
  "written_entity = \<lparr> inst_id = IdNumber 7, readyState = Some Loading_local_data,
       asJSON = Some ''{}'', cachedValue = Some ''{}'', cachedVersion = None,
       entity_version = Some 3 \<rparr>"
  by (simp add: written_entity_def set_value_new)

lemma key_bytes_7: "key_bytes unary_codec (IdNumber 7) = [2, 7]"
  by (simp add: unary_codec_def)

lemma stored_class_eval:
  "pendingWrites stored_class = []"
  "table stored_class (key_bytes unary_codec (IdNumber 7)) = Some (Str ''111,{}'')"
  by (simp_all add: stored_class_def written_class_def set_value_new key_bytes_7 batcher_defs)

lemma stored_row:
  "loadLocalData unary_codec stored_class (IdNumber 7)
     = Some \<lparr> ld_version = Some 3, ld_asJSON = Some ''{}'' \<rparr>"
  by (simp add: loadLocalData_def dbGet_def stored_class_eval withValue_def Let_def)
     (simp add: unary_codec_def)

lemma loaded_entity_eval:
  "loaded_entity = \<lparr> inst_id = IdNumber 7, readyState = Some Up_to_date,
       asJSON = Some ''{}'', cachedValue = None, cachedVersion = None,
       entity_version = Some 3 \<rparr>"
  by (simp add: loaded_entity_def loadLatestLocalData_def new_entity_def stored_row)

lemma parse_unary: "parse_value unary_codec j = j"
  by (simp add: unary_codec_def)

subsection \<open>Clearing and reloading\<close>

text \<open>
  For an entity whose \<^verbatim>\<open>readyState\<close> is up-to-date or invalidated and whose cache agrees
  with the stored row, \<^verbatim>\<open>valueOf\<close> yields the value of the stored row before
  \<^verbatim>\<open>clearCache\<close> and, by a reload, after it.
\<close>

lemma reload_after_clearCache:
  assumes rs: "readyState e = Some Up_to_date \<or> readyState e = Some Invalidated"
      and ld: "loadLocalData env s (inst_id e) = Some data"
      and ag: "cache_agrees env data e"
  shows "map_option fst (valueOf env nv s e) = Some (stored_value env data)"
    and "map_option fst (valueOf env nv s (clearCache e)) = Some (stored_value env data)"
proof -
  from rs have "readyState e \<noteq> None" by auto
  then have "valueOf env nv s e = Some (get_value env e)" by (rule valueOf_ready)
  with ag show "map_option fst (valueOf env nv s e) = Some (stored_value env data)"
    by (simp add: get_value_agrees)
  from rs have "readyState (clearCache e) = None" by (auto simp add: clearCache_fields)
  with ld show "map_option fst (valueOf env nv s (clearCache e)) = Some (stored_value env data)"
    by (rule valueOf_reload_cleared)
qed

text \<open>
  The setter on an entity that is new to the cache leaves \<^verbatim>\<open>readyState\<close> at
  loading-local-data, whatever the value, the codec and the store: \<^verbatim>\<open>valueOf\<close> then yields
  the value that was set, \<^verbatim>\<open>clearCache\<close> leaves \<^verbatim>\<open>readyState\<close> as it is, and \<^verbatim>\<open>valueOf\<close>
  after it does not load and yields nothing.
\<close>

lemma set_value_readyState:
  assumes "readyState e = None \<or> readyState e = Some No_local_data"
  shows "readyState (fst (set_value env (Some v) e)) = Some Loading_local_data"
    and "cachedValue (fst (set_value env (Some v) e)) = Some v"
  using assms by (auto simp add: set_value_def Let_def)

lemma set_value_then_clearCache:
  assumes "readyState e = None \<or> readyState e = Some No_local_data"
  shows "map_option fst (valueOf env nv s (fst (set_value env (Some v) e))) = Some (Some v)"
    and "readyState (clearCache (fst (set_value env (Some v) e))) = Some Loading_local_data"
    and "map_option fst (valueOf env nv s (clearCache (fst (set_value env (Some v) e))))
           = Some None"
proof -
  let ?e = "fst (set_value env (Some v) e)"
  have rs: "readyState ?e = Some Loading_local_data" and cv: "cachedValue ?e = Some v"
    using assms by (rule set_value_readyState)+
  from rs have "valueOf env nv s ?e = Some (get_value env ?e)"
    by (simp add: valueOf_ready)
  with cv show "map_option fst (valueOf env nv s ?e) = Some (Some v)"
    by (simp add: get_value_def)
  from rs show cl: "readyState (clearCache ?e) = Some Loading_local_data"
    by (simp add: clearCache_fields)
  then have "valueOf env nv s (clearCache ?e) = Some (get_value env (clearCache ?e))"
    by (simp add: valueOf_ready)
  then show "map_option fst (valueOf env nv s (clearCache ?e)) = Some None"
    by (simp add: get_value_cleared)
qed

text \<open>
  Claim C8. \<^verbatim>\<open>clearCache\<close> changes fields of the entity only, and the claim is that clearing
  the cache of a persisted entity and reloading it through \<^verbatim>\<open>valueOf\<close> yields the same
  value as before. The code breaks this for an entity whose value was set through the setter
  while it was new to the cache. The run: \<^verbatim>\<open>for(7)\<close> gives a new entity, its value is set to
  \<open>{}\<close>, and the batch writes the row \<open>111,{}\<close> to the table. The setter has left
  \<^verbatim>\<open>readyState\<close> at loading-local-data; \<^verbatim>\<open>valueOf\<close> yields \<open>{}\<close>. \<^verbatim>\<open>clearCache\<close> drops
  \<^verbatim>\<open>asJSON\<close> and the cached value and leaves the id, the version and \<^verbatim>\<open>readyState\<close>, so
  \<^verbatim>\<open>valueOf\<close> does not load and yields \<^verbatim>\<open>undefined\<close>, although the row is still in the
  store. The entity that \<^verbatim>\<open>loadLatestLocalData\<close> loads from the same row is up-to-date,
  and \<^verbatim>\<open>valueOf\<close> yields \<open>{}\<close> for it before and after \<^verbatim>\<open>clearCache\<close>.
\<close>

theorem clearCache_after_set_loses_value:
  "written_entity = fst (set_value unary_codec (Some ''{}'') new_entity)
   \<and> readyState written_entity = Some Loading_local_data
   \<and> loadLocalData unary_codec stored_class (inst_id written_entity)
       = Some \<lparr> ld_version = Some 3, ld_asJSON = Some ''{}'' \<rparr>
   \<and> map_option fst (valueOf unary_codec 0 stored_class written_entity) = Some (Some ''{}'')
   \<and> inst_id (clearCache written_entity) = inst_id written_entity
   \<and> entity_version (clearCache written_entity) = entity_version written_entity
   \<and> asJSON (clearCache written_entity) = None
   \<and> cachedValue (clearCache written_entity) = None
   \<and> readyState (clearCache written_entity) = Some Loading_local_data
   \<and> map_option fst (valueOf unary_codec 0 stored_class (clearCache written_entity))
       = Some None
   \<and> readyState loaded_entity = Some Up_to_date
   \<and> map_option fst (valueOf unary_codec 0 stored_class loaded_entity) = Some (Some ''{}'')
   \<and> map_option fst (valueOf unary_codec 0 stored_class (clearCache loaded_entity))
       = Some (Some ''{}'')"
proof -
  define data where "data = \<lparr> ld_version = Some 3, ld_asJSON = Some ''{}'' \<rparr>"
  have new: "readyState new_entity = None \<or> readyState new_entity = Some No_local_data"
    by (simp add: new_entity_def)
  have w: "written_entity = fst (set_value unary_codec (Some ''{}'') new_entity)"
    by (rule written_entity_def)
  have rs: "readyState written_entity = Some Loading_local_data"
    by (simp add: written_entity_eval)
  have ld: "loadLocalData unary_codec stored_class (inst_id written_entity) = Some data"
    by (simp add: written_entity_eval stored_row data_def)
  have before: "map_option fst (valueOf unary_codec 0 stored_class written_entity)
                  = Some (Some ''{}'')"
    unfolding w by (rule set_value_then_clearCache(1) [OF new])
  have cl: "readyState (clearCache written_entity) = Some Loading_local_data"
    unfolding w by (rule set_value_then_clearCache(2) [OF new])
  have after: "map_option fst (valueOf unary_codec 0 stored_class (clearCache written_entity))
                 = Some None"
    unfolding w by (rule set_value_then_clearCache(3) [OF new])
  have frame: "inst_id (clearCache written_entity) = inst_id written_entity"
    "entity_version (clearCache written_entity) = entity_version written_entity"
    "asJSON (clearCache written_entity) = None"
    "cachedValue (clearCache written_entity) = None"
    by (rule clearCache_fields)+
  have lrs: "readyState loaded_entity = Some Up_to_date"
    by (simp add: loaded_entity_eval)
  have lld: "loadLocalData unary_codec stored_class (inst_id loaded_entity) = Some data"
    by (simp add: loaded_entity_eval stored_row data_def)
  have lag: "cache_agrees unary_codec data loaded_entity"
    by (simp add: cache_agrees_def data_def loaded_entity_eval)
  have sv: "stored_value unary_codec data = Some ''{}''"
    by (simp add: stored_value_def data_def parse_unary)
  have lbefore: "map_option fst (valueOf unary_codec 0 stored_class loaded_entity)
                   = Some (Some ''{}'')"
    using reload_after_clearCache(1) [OF disjI1 [OF lrs] lld lag] sv by simp
  have lafter: "map_option fst (valueOf unary_codec 0 stored_class (clearCache loaded_entity))
                  = Some (Some ''{}'')"
    using reload_after_clearCache(2) [OF disjI1 [OF lrs] lld lag] sv by simp
  from w rs ld before frame cl after lrs lbefore lafter show ?thesis
    unfolding data_def by simp
qed

end
